theory Spec2Isabelle
  imports Main "HOL-Library.AList"
begin

section \<open>Data model\<close>

text \<open>
  The embedding follows \<^verbatim>\<open>PSComponent.tsx\<close>, \<^verbatim>\<open>PubSubProxy.ts\<close> and
  \<^verbatim>\<open>GlobalPubSub.ts\<close>. Callbacks and promise resolvers are compared by identity
  in the source (they are members of a JavaScript \<^verbatim>\<open>Set\<close>), so both are modelled
  by identifiers. A callback is opaque: calling it is recorded in the event trace of the
  world and has no other effect. Message arguments are lists of opaque values.
\<close>

type_synonym key = string
type_synonym cb = nat
type_synonym pid = nat
type_synonym cid = nat
type_synonym xid = nat
type_synonym gid = nat
type_synonym oid = nat
type_synonym args = "nat list"

text \<open>The two kinds of exception the source raises, with their messages.\<close>

datatype error = Error string | TypeError string

definition AlreadyFinalized :: error where
  "AlreadyFinalized = Error ''Already finalized.''"

text \<open>A promise is pending, fulfilled with the arguments of a trigger, or rejected.\<close>

datatype pstate = Pending | Fulfilled args | Rejected error

text \<open>Observable effects, in the order they happen.\<close>

datatype event = Resolved pid args | Called cb args

text \<open>
  \<^verbatim>\<open>Map<key, Set<M>>\<close>: both containers iterate in insertion order, so the map is an
  association list and each set a list without repetition. \<^verbatim>\<open>Map.set\<close> of a new key
  appends, of an existing key replaces in place (\<^const>\<open>AList.update\<close>);
  \<^verbatim>\<open>Set.add\<close> of a member changes nothing.
\<close>

type_synonym 'a trigmap = "(key \<times> 'a list) list"

definition set_add :: "'a list \<Rightarrow> 'a \<Rightarrow> 'a list" where
  "set_add s v = (if v \<in> set s then s else s @ [v])"

definition set_delete :: "'a list \<Rightarrow> 'a \<Rightarrow> 'a list" where
  "set_delete s v = removeAll v s"

definition wf_trigmap :: "'a trigmap \<Rightarrow> bool" where
  "wf_trigmap m = (distinct (map fst m) \<and> list_all (\<lambda>(k, s). distinct s) m)"

text \<open>
  The handle a publisher writes into a registry: the component's \<^verbatim>\<open>pubsubObject\<close>
  (fields \<^verbatim>\<open>async\<close>, \<^verbatim>\<open>sub\<close>, \<^verbatim>\<open>unsub\<close>, \<^verbatim>\<open>_finalizeTriggers\<close>), which is what
  the constructor stores, or the component instance itself, which has the method
  \<^verbatim>\<open>finalizeTriggers\<close> as well. A slot of a registry holds a placeholder
  (\<^verbatim>\<open>PubSubProxy\<close>), which the registry created on a read, or such a handle, which a
  program wrote; the values a program writes are these handles (a placeholder that is read
  from a registry and written into one is not modelled).
\<close>

datatype handle = PSObj cid | PSComp cid

datatype occupant = Placeholder xid | Real handle

type_synonym slots = "key \<rightharpoonup> occupant"

record pubsubproxy =
  px_promises :: "pid trigmap"
  px_subscriptions :: "cb trigmap"

record pscomponent =
  promises :: "pid trigmap"
  subscriptions :: "cb trigmap"
  finalized :: bool
  ps :: slots

text \<open>
  The heap. Objects are addressed by identifiers; every identifier denotes an object,
  which is in its initial state until the program creates or uses it. Promises wait in
  \<open>reactions\<close> (pairs of an awaited promise and the resolver its continuation calls) and
  \<open>jobs\<close> is the microtask queue of continuations ready to run.
\<close>

record world =
  comps :: "cid \<Rightarrow> pscomponent"
  proxies :: "xid \<Rightarrow> pubsubproxy"
  globals :: "gid \<Rightarrow> slots"
  plains :: "oid \<Rightarrow> slots"
  pstates :: "pid \<Rightarrow> pstate"
  reactions :: "(pid \<times> pid) list"
  jobs :: "(pid \<times> args) list"
  events :: "event list"
  next_pid :: nat
  next_xid :: nat
  next_cid :: nat
  next_gid :: nat

type_synonym 'a res = "(error + 'a) \<times> world"

definition new_proxy :: pubsubproxy where
  "new_proxy = \<lparr>px_promises = [], px_subscriptions = []\<rparr>"

definition new_component :: pscomponent where
  "new_component = \<lparr>promises = [], subscriptions = [], finalized = False, ps = Map.empty\<rparr>"

definition init_world :: world where
  "init_world = \<lparr>comps = (\<lambda>_. new_component), proxies = (\<lambda>_. new_proxy),
     globals = (\<lambda>_. Map.empty), plains = (\<lambda>_. Map.empty), pstates = (\<lambda>_. Pending),
     reactions = [], jobs = [], events = [],
     next_pid = 0, next_xid = 0, next_cid = 0, next_gid = 0\<rparr>"

definition upd_comp :: "cid \<Rightarrow> (pscomponent \<Rightarrow> pscomponent) \<Rightarrow> world \<Rightarrow> world" where
  "upd_comp c f w = w\<lparr>comps := (comps w)(c := f (comps w c))\<rparr>"

definition upd_proxy :: "xid \<Rightarrow> (pubsubproxy \<Rightarrow> pubsubproxy) \<Rightarrow> world \<Rightarrow> world" where
  "upd_proxy x f w = w\<lparr>proxies := (proxies w)(x := f (proxies w x))\<rparr>"

section \<open>Promises\<close>

text \<open>
  \<^verbatim>\<open>new Promise(...)\<close> creates a pending promise; its \<^verbatim>\<open>resolve\<close> function is
  identified with the promise. Calling \<^verbatim>\<open>resolve(v)\<close> settles a pending promise and
  queues the continuations awaiting it; on a settled promise it does nothing.
\<close>

definition resolve :: "pid \<Rightarrow> args \<Rightarrow> world \<Rightarrow> world" where
  "resolve p v w =
     (case pstates w p of
        Pending \<Rightarrow>
          w\<lparr>pstates := (pstates w)(p := Fulfilled v),
            jobs := jobs w @ map (\<lambda>(q, r). (r, v)) (filter (\<lambda>(q, r). q = p) (reactions w)),
            reactions := filter (\<lambda>(q, r). q \<noteq> p) (reactions w),
            events := events w @ [Resolved p v]\<rparr>
      | _ \<Rightarrow> w)"

text \<open>One microtask: the continuation \<^verbatim>\<open>resolve(await ...)\<close> of a relay resumes.\<close>

definition run_microtask :: "world \<Rightarrow> world" where
  "run_microtask w =
     (case jobs w of [] \<Rightarrow> w | (r, v) # js \<Rightarrow> resolve r v (w\<lparr>jobs := js\<rparr>))"

text \<open>
  \<^verbatim>\<open>resolve(await q)\<close> inside an \<^verbatim>\<open>async\<close> arrow function: the function suspends
  on \<open>q\<close>; when \<open>q\<close> is rejected the arrow function's own promise rejects and \<open>r\<close> is
  never called.
\<close>

definition await_relay :: "pid \<Rightarrow> pid \<Rightarrow> world \<Rightarrow> world" where
  "await_relay q r w =
     (case pstates w q of
        Pending \<Rightarrow> w\<lparr>reactions := reactions w @ [(q, r)]\<rparr>
      | Fulfilled v \<Rightarrow> w\<lparr>jobs := jobs w @ [(r, v)]\<rparr>
      | Rejected e \<Rightarrow> w)"

section \<open>PubSubProxy\<close>

definition px_getTriggerSet :: "'a trigmap \<Rightarrow> key \<Rightarrow> 'a trigmap \<times> 'a list" where
  "px_getTriggerSet m k =
     (case map_of m k of
        None \<Rightarrow> (AList.update k [] m, [])
      | Some s \<Rightarrow> (m, s))"

definition px_triggerSubscribe :: "pubsubproxy \<Rightarrow> key \<Rightarrow> cb \<Rightarrow> pubsubproxy" where
  "px_triggerSubscribe p k f =
     (case px_getTriggerSet (px_subscriptions p) k of
        (m, s) \<Rightarrow> p\<lparr>px_subscriptions := AList.update k (set_add s f) m\<rparr>)"

definition px_triggerUnsubscribe :: "pubsubproxy \<Rightarrow> key \<Rightarrow> cb \<Rightarrow> pubsubproxy" where
  "px_triggerUnsubscribe p k f =
     (case px_getTriggerSet (px_subscriptions p) k of
        (m, s) \<Rightarrow>
          (let s' = set_delete s f; m' = AList.update k s' m
           in if length s' = 0 then p\<lparr>px_subscriptions := AList.delete k m'\<rparr>
              else p\<lparr>px_subscriptions := m'\<rparr>))"

text \<open>The \<^verbatim>\<open>get\<close> trap of \<^verbatim>\<open>async\<close>: a new promise whose resolver is buffered.\<close>

definition px_async :: "xid \<Rightarrow> key \<Rightarrow> world \<Rightarrow> pid \<times> world" where
  "px_async x k w =
     (let q = next_pid w;
          w1 = w\<lparr>next_pid := Suc q, pstates := (pstates w)(q := Pending)\<rparr>
      in case px_getTriggerSet (px_promises (proxies w1 x)) k of
           (m, s) \<Rightarrow> (q, upd_proxy x (\<lambda>p. p\<lparr>px_promises := AList.update k (set_add s q) m\<rparr>) w1))"

definition px_sub :: "xid \<Rightarrow> key \<Rightarrow> cb \<Rightarrow> world \<Rightarrow> unit res" where
  "px_sub x k f w = (Inr (), upd_proxy x (\<lambda>p. px_triggerSubscribe p k f) w)"

definition px_unsub :: "xid \<Rightarrow> key \<Rightarrow> cb \<Rightarrow> world \<Rightarrow> unit res" where
  "px_unsub x k f w = (Inr (), upd_proxy x (\<lambda>p. px_triggerUnsubscribe p k f) w)"

section \<open>PSComponent\<close>

definition getTriggerSet :: "pscomponent \<Rightarrow> 'a trigmap \<Rightarrow> key \<Rightarrow> error + ('a trigmap \<times> 'a list)" where
  "getTriggerSet this m k =
     (if finalized this then Inl (Error ''Already finalized.'')
      else (case map_of m k of
              None \<Rightarrow> Inr (AList.update k [] m, [])
            | Some s \<Rightarrow> Inr (m, s)))"

definition triggerSubscribe :: "pscomponent \<Rightarrow> key \<Rightarrow> cb \<Rightarrow> error + pscomponent" where
  "triggerSubscribe this k f =
     (case getTriggerSet this (subscriptions this) k of
        Inl e \<Rightarrow> Inl e
      | Inr (m, s) \<Rightarrow> Inr (this\<lparr>subscriptions := AList.update k (set_add s f) m\<rparr>))"

definition triggerUnsubscribe :: "pscomponent \<Rightarrow> key \<Rightarrow> cb \<Rightarrow> error + pscomponent" where
  "triggerUnsubscribe this k f =
     (case getTriggerSet this (subscriptions this) k of
        Inl e \<Rightarrow> Inl e
      | Inr (m, s) \<Rightarrow>
          (let s' = set_delete s f; m' = AList.update k s' m
           in if length s' = 0 then Inr (this\<lparr>subscriptions := AList.delete k m'\<rparr>)
              else Inr (this\<lparr>subscriptions := m'\<rparr>)))"

text \<open>
  \<^verbatim>\<open>triggerPromise\<close> is an \<^verbatim>\<open>async\<close> function around \<^verbatim>\<open>new Promise(executor)\<close>:
  an exception of the executor does not propagate to the caller, it rejects the promise
  that is returned (the promise of the \<^verbatim>\<open>async\<close> function adopts the state of the
  inner one; the two are one promise here).
\<close>

definition triggerPromise :: "cid \<Rightarrow> key \<Rightarrow> world \<Rightarrow> pid \<times> world" where
  "triggerPromise c k w =
     (let q = next_pid w;
          w1 = w\<lparr>next_pid := Suc q, pstates := (pstates w)(q := Pending)\<rparr>;
          this = comps w1 c
      in case getTriggerSet this (promises this) k of
           Inl e \<Rightarrow> (q, w1\<lparr>pstates := (pstates w1)(q := Rejected e)\<rparr>)
         | Inr (m, s) \<Rightarrow>
             (q, upd_comp c (\<lambda>t. t\<lparr>promises := AList.update k (set_add s q) m\<rparr>) w1))"

definition comp_sub :: "cid \<Rightarrow> key \<Rightarrow> cb \<Rightarrow> world \<Rightarrow> unit res" where
  "comp_sub c k f w =
     (case triggerSubscribe (comps w c) k f of
        Inl e \<Rightarrow> (Inl e, w)
      | Inr t \<Rightarrow> (Inr (), upd_comp c (\<lambda>_. t) w))"

definition comp_unsub :: "cid \<Rightarrow> key \<Rightarrow> cb \<Rightarrow> world \<Rightarrow> unit res" where
  "comp_unsub c k f w =
     (case triggerUnsubscribe (comps w c) k f of
        Inl e \<Rightarrow> (Inl e, w)
      | Inr t \<Rightarrow> (Inr (), upd_comp c (\<lambda>_. t) w))"

text \<open>
  \<^verbatim>\<open>trigger(key, ...args)\<close>. The rest parameter \<^verbatim>\<open>args\<close> is always an array, so the
  branch \<^verbatim>\<open>args === undefined\<close> is never taken and every callback is called with
  the arguments spread.
\<close>

definition call_all :: "cb list \<Rightarrow> args \<Rightarrow> world \<Rightarrow> world" where
  "call_all s a w = fold (\<lambda>f w. w\<lparr>events := events w @ [Called f a]\<rparr>) s w"

definition resolve_all :: "pid list \<Rightarrow> args \<Rightarrow> world \<Rightarrow> world" where
  "resolve_all s a w = fold (\<lambda>r w. resolve r a w) s w"

definition trigger :: "cid \<Rightarrow> key \<Rightarrow> args \<Rightarrow> world \<Rightarrow> unit res" where
  "trigger c k a w =
     (let this = comps w c in
      case getTriggerSet this (promises this) k of
        Inl e \<Rightarrow> (Inl e, w)
      | Inr (m, s) \<Rightarrow>
          (let w1 = resolve_all s a (upd_comp c (\<lambda>t. t\<lparr>promises := m\<rparr>) w);
               w2 = upd_comp c (\<lambda>t. t\<lparr>promises := AList.delete k (promises t)\<rparr>) w1;
               this2 = comps w2 c
           in case getTriggerSet this2 (subscriptions this2) k of
                Inl e \<Rightarrow> (Inl e, w2)
              | Inr (m', s') \<Rightarrow>
                  (Inr (), call_all s' a (upd_comp c (\<lambda>t. t\<lparr>subscriptions := m'\<rparr>) w2))))"

section \<open>Forwarding\<close>

text \<open>The \<^verbatim>\<open>async\<close> and \<^verbatim>\<open>sub\<close> surfaces of a handle.\<close>

fun handle_cid :: "handle \<Rightarrow> cid" where
  "handle_cid (PSObj c) = c"
| "handle_cid (PSComp c) = c"

definition handle_async :: "handle \<Rightarrow> key \<Rightarrow> world \<Rightarrow> pid \<times> world" where
  "handle_async h k w = triggerPromise (handle_cid h) k w"

definition handle_sub :: "handle \<Rightarrow> key \<Rightarrow> cb \<Rightarrow> world \<Rightarrow> unit res" where
  "handle_sub h k f w = comp_sub (handle_cid h) k f w"

text \<open>
  \<^verbatim>\<open>promises.forEach(async (resolve) => { resolve(await component.async[key]); })\<close>
  for one resolver, and the two nested \<^verbatim>\<open>forEach\<close> loops. The loops run over the
  maps of the forwarding object while the body touches only the target; when the target
  is the forwarding component itself it is already sealed, so the maps that are iterated
  do not change during the iteration.
\<close>

definition forward_one :: "handle \<Rightarrow> key \<Rightarrow> pid \<Rightarrow> world \<Rightarrow> world" where
  "forward_one h k r w = (case handle_async h k w of (q, w') \<Rightarrow> await_relay q r w')"

definition forward_promises :: "handle \<Rightarrow> pid trigmap \<Rightarrow> world \<Rightarrow> world" where
  "forward_promises h m w = fold (\<lambda>(k, s) w. fold (forward_one h k) s w) m w"

text \<open>An exception of \<^verbatim>\<open>component.sub[key](callback)\<close> ends both loops.\<close>

fun register_set :: "handle \<Rightarrow> key \<Rightarrow> cb list \<Rightarrow> world \<Rightarrow> unit res" where
  "register_set h k [] w = (Inr (), w)"
| "register_set h k (f # fs) w =
     (case handle_sub h k f w of
        (Inl e, w') \<Rightarrow> (Inl e, w')
      | (Inr _, w') \<Rightarrow> register_set h k fs w')"

fun register_all :: "handle \<Rightarrow> cb trigmap \<Rightarrow> world \<Rightarrow> unit res" where
  "register_all h [] w = (Inr (), w)"
| "register_all h ((k, s) # m) w =
     (case register_set h k s w of
        (Inl e, w') \<Rightarrow> (Inl e, w')
      | (Inr _, w') \<Rightarrow> register_all h m w')"

definition px_finalize :: "xid \<Rightarrow> handle \<Rightarrow> world \<Rightarrow> unit res" where
  "px_finalize x h w =
     (let this = proxies w x;
          w1 = forward_promises h (px_promises this) w
      in case register_all h (px_subscriptions this) w1 of
           (Inl e, w2) \<Rightarrow> (Inl e, w2)
         | (Inr _, w2) \<Rightarrow>
             (Inr (), upd_proxy x (\<lambda>p. p\<lparr>px_promises := [], px_subscriptions := []\<rparr>) w2))"

definition finalizeTriggers :: "cid \<Rightarrow> handle \<Rightarrow> world \<Rightarrow> unit res" where
  "finalizeTriggers c h w =
     (let this = comps w c in
      if finalized this then (Inl (Error ''Already finalized.''), w)
      else
        (let w0 = upd_comp c (\<lambda>t. t\<lparr>finalized := True\<rparr>) w;
             w1 = forward_promises h (promises this) w0
         in case register_all h (subscriptions this) w1 of
              (Inl e, w2) \<Rightarrow> (Inl e, w2)
            | (Inr _, w2) \<Rightarrow>
                (Inr (), upd_comp c (\<lambda>t. t\<lparr>promises := [], subscriptions := []\<rparr>) w2)))"

section \<open>Named registries\<close>

text \<open>
  The target of a registry proxy is a plain object, \<^verbatim>\<open>{}\<close>. The map of a registry gives
  the own properties of the target and, under the name \<^verbatim>\<open>__proto__\<close>, the object that an
  assignment has made its prototype (no entry: \<^verbatim>\<open>Object.prototype\<close>). An assignment
  \<^verbatim>\<open>target[property] = value\<close> of any other name creates or overwrites an own property;
  an assignment of \<^verbatim>\<open>__proto__\<close> calls the setter inherited from
  \<^verbatim>\<open>Object.prototype\<close>, which replaces the prototype and creates no own property, and
  a read of \<^verbatim>\<open>target.__proto__\<close> returns the prototype. So \<open>own\<close> is the own property of
  a name, and the update of the map is the assignment for every name.

  Both traps begin with \<^verbatim>\<open>target.hasOwnProperty(property)\<close>. The method is inherited (a
  placeholder, a \<^verbatim>\<open>pubsubObject\<close> and a component inherit it as well, so a replaced
  prototype still provides it) unless the target has an own property named
  \<^verbatim>\<open>hasOwnProperty\<close>; that property holds a placeholder or a handle, not a function, and
  the call raises a TypeError. The objects that can become the prototype are taken to have
  writable data properties only, as the classes of this library declare them, so that the
  assignment of a name that is no own property creates one also under a replaced
  prototype.
\<close>

definition own :: "slots \<Rightarrow> key \<Rightarrow> occupant option" where
  "own target property = (if property = ''__proto__'' then None else target property)"

definition shadowed :: "slots \<Rightarrow> bool" where
  "shadowed target = (target ''hasOwnProperty'' \<noteq> None)"

definition hasOwnProperty_not_a_function :: error where
  "hasOwnProperty_not_a_function = TypeError ''target.hasOwnProperty is not a function''"

text \<open>
  The \<^verbatim>\<open>get\<close> trap, the same in the \<^verbatim>\<open>ps\<close> proxy and in \<^verbatim>\<open>GlobalPubSub\<close>: when
  the name is no own property, a new placeholder is assigned to it, and
  \<^verbatim>\<open>target[property]\<close> is returned, which then is that placeholder (for
  \<^verbatim>\<open>__proto__\<close>, the new prototype).
\<close>

definition ps_get :: "cid \<Rightarrow> key \<Rightarrow> world \<Rightarrow> occupant res" where
  "ps_get c n w =
     (let target = ps (comps w c) in
      if shadowed target then (Inl hasOwnProperty_not_a_function, w)
      else
        (case own target n of
           None \<Rightarrow>
             (let x = next_xid w;
                  w1 = w\<lparr>next_xid := Suc x, proxies := (proxies w)(x := new_proxy)\<rparr>
              in (Inr (Placeholder x), upd_comp c (\<lambda>t. t\<lparr>ps := (ps t)(n \<mapsto> Placeholder x)\<rparr>) w1))
         | Some occ \<Rightarrow> (Inr occ, w)))"

definition global_get :: "gid \<Rightarrow> key \<Rightarrow> world \<Rightarrow> occupant res" where
  "global_get g n w =
     (let target = globals w g in
      if shadowed target then (Inl hasOwnProperty_not_a_function, w)
      else
        (case own target n of
           None \<Rightarrow>
             (let x = next_xid w;
                  w1 = w\<lparr>next_xid := Suc x, proxies := (proxies w)(x := new_proxy)\<rparr>
              in (Inr (Placeholder x),
                  w1\<lparr>globals := (globals w1)(g := (globals w1 g)(n \<mapsto> Placeholder x))\<rparr>))
         | Some occ \<Rightarrow> (Inr occ, w)))"

text \<open>
  The \<^verbatim>\<open>set\<close> trap of the \<^verbatim>\<open>ps\<close> proxy of component \<open>c\<close>. When the name is an own
  property that holds a real handle the trap calls \<^verbatim>\<open>this.finalizeTriggers(value)\<close>,
  where \<^verbatim>\<open>this\<close> is the component that owns \<^verbatim>\<open>ps\<close>. The assignment that stores the
  value comes after the call, so an exception of the call leaves the slot as it was.
\<close>

definition ps_set :: "cid \<Rightarrow> key \<Rightarrow> handle \<Rightarrow> world \<Rightarrow> unit res" where
  "ps_set c n v w =
     (let target = ps (comps w c);
          store = (\<lambda>w. (Inr (), upd_comp c (\<lambda>t. t\<lparr>ps := (ps t)(n \<mapsto> Real v)\<rparr>) w)) in
      if shadowed target then (Inl hasOwnProperty_not_a_function, w)
      else
        (case own target n of
           None \<Rightarrow> store w
         | Some (Placeholder x) \<Rightarrow>
             (case px_finalize x v w of
                (Inl e, w') \<Rightarrow> (Inl e, w')
              | (Inr _, w') \<Rightarrow> store w')
         | Some (Real _) \<Rightarrow>
             (case finalizeTriggers c v w of
                (Inl e, w') \<Rightarrow> (Inl e, w')
              | (Inr _, w') \<Rightarrow> store w')))"

text \<open>
  The \<^verbatim>\<open>set\<close> trap of \<^verbatim>\<open>GlobalPubSub\<close> calls
  \<^verbatim>\<open>target[property].finalizeTriggers(value)\<close> on the occupant. A component instance
  has that method; a \<^verbatim>\<open>pubsubObject\<close> has \<^verbatim>\<open>_finalizeTriggers\<close> only, so the call
  is a call of \<^verbatim>\<open>undefined\<close> and the engine raises a TypeError.
\<close>

definition not_a_function :: error where
  "not_a_function = TypeError ''target[property].finalizeTriggers is not a function''"

definition global_set :: "gid \<Rightarrow> key \<Rightarrow> handle \<Rightarrow> world \<Rightarrow> unit res" where
  "global_set g n v w =
     (let target = globals w g;
          store = (\<lambda>w. (Inr (), w\<lparr>globals := (globals w)(g := (globals w g)(n \<mapsto> Real v))\<rparr>)) in
      if shadowed target then (Inl hasOwnProperty_not_a_function, w)
      else
        (case own target n of
           None \<Rightarrow> store w
         | Some (Placeholder x) \<Rightarrow>
             (case px_finalize x v w of
                (Inl e, w') \<Rightarrow> (Inl e, w')
              | (Inr _, w') \<Rightarrow> store w')
         | Some (Real (PSComp c')) \<Rightarrow>
             (case finalizeTriggers c' v w of
                (Inl e, w') \<Rightarrow> (Inl e, w')
              | (Inr _, w') \<Rightarrow> store w')
         | Some (Real (PSObj c')) \<Rightarrow> (Inl not_a_function, w)))"

definition GlobalPubSub :: "world \<Rightarrow> gid \<times> world" where
  "GlobalPubSub w =
     (let g = next_gid w
      in (g, w\<lparr>next_gid := Suc g, globals := (globals w)(g := Map.empty)\<rparr>))"

section \<open>Construction-time linkage\<close>

text \<open>
  The elements of the \<^verbatim>\<open>pubsub\<close> prop: a string, a missing element, the \<^verbatim>\<open>ps\<close>
  proxy of a component, a global registry, or a plain object
  (\<^verbatim>\<open>const childPubSub = {}\<close> of the README).
\<close>

datatype linkarg = LStr string | LUndefined | LPs cid | LGlobal gid | LPlain oid

text \<open>
  The TypeErrors the engine raises for an assignment to a property of \<^verbatim>\<open>undefined\<close> or
  of a string, with the messages of V8; \<open>quoted\<close> puts a name between apostrophes and
  \<open>decimal\<close> is the decimal numeral of a number.
\<close>

definition quoted :: "string \<Rightarrow> string" where
  "quoted s = CHR 0x27 # s @ [CHR 0x27]"

fun decimal :: "nat \<Rightarrow> string" where
  "decimal n =
     (if n < 10 then [''0123456789'' ! n]
      else decimal (n div 10) @ [''0123456789'' ! (n mod 10)])"

declare decimal.simps [simp del]

definition cannot_set_property :: "key \<Rightarrow> error" where
  "cannot_set_property n =
     TypeError (''Cannot set properties of undefined (setting '' @ quoted n @ '')'')"

definition cannot_create_property :: "string \<Rightarrow> key \<Rightarrow> error" where
  "cannot_create_property s n =
     TypeError (''Cannot create property '' @ quoted n @ '' on string '' @ quoted s)"

definition cannot_assign_read_only :: "string \<Rightarrow> key \<Rightarrow> error" where
  "cannot_assign_read_only s n =
     TypeError (''Cannot assign to read only property '' @ quoted n @ '' of string '' @ quoted s)"

text \<open>
  \<^verbatim>\<open>target[id] = value\<close> in strict mode (class bodies are strict), for each kind of
  element the \<^verbatim>\<open>pubsub\<close> prop can hold. On \<^verbatim>\<open>undefined\<close> every assignment raises. On a
  string the assignment of \<^verbatim>\<open>__proto__\<close> calls the inherited setter, which does nothing
  for a primitive value, the assignment of \<^verbatim>\<open>length\<close> or of the index of a character
  meets a read-only property, and every other assignment would create a property on a
  primitive value; the last two raise. On the proxy of a registry it is the \<^verbatim>\<open>set\<close>
  trap, and on a plain object the assignment itself, recorded in the map of the object as
  for the target of a registry.
\<close>

fun prop_set :: "linkarg \<Rightarrow> key \<Rightarrow> handle \<Rightarrow> world \<Rightarrow> unit res" where
  "prop_set LUndefined n v w = (Inl (cannot_set_property n), w)"
| "prop_set (LStr s) n v w =
     (if n = ''__proto__'' then (Inr (), w)
      else if n = ''length'' \<or> n \<in> set (map decimal [0..<length s])
        then (Inl (cannot_assign_read_only s n), w)
      else (Inl (cannot_create_property s n), w))"
| "prop_set (LPs c) n v w = ps_set c n v w"
| "prop_set (LGlobal g) n v w = global_set g n v w"
| "prop_set (LPlain ob) n v w =
     (Inr (), w\<lparr>plains := (plains w)(ob := (plains w ob)(n \<mapsto> Real v))\<rparr>)"

fun register_globals :: "linkarg list \<Rightarrow> key \<Rightarrow> handle \<Rightarrow> world \<Rightarrow> unit res" where
  "register_globals [] n v w = (Inr (), w)"
| "register_globals (g # gs) n v w =
     (case prop_set g n v w of
        (Inl e, w') \<Rightarrow> (Inl e, w')
      | (Inr _, w') \<Rightarrow> register_globals gs n v w')"

text \<open>Array destructuring: a missing element is \<^verbatim>\<open>undefined\<close>.\<close>

definition elem :: "linkarg list \<Rightarrow> nat \<Rightarrow> linkarg" where
  "elem xs i = (if i < length xs then xs ! i else LUndefined)"

definition is_string :: "linkarg \<Rightarrow> bool" where
  "is_string a = (case a of LStr _ \<Rightarrow> True | _ \<Rightarrow> False)"

definition the_string :: "linkarg \<Rightarrow> string" where
  "the_string a = (case a of LStr s \<Rightarrow> s | _ \<Rightarrow> [])"

text \<open>
  The constructor: the new component is created, then the \<^verbatim>\<open>pubsub\<close> prop, when
  present, is taken apart and the handle written into every registry it names.
\<close>

definition link :: "cid \<Rightarrow> linkarg list \<Rightarrow> world \<Rightarrow> unit res" where
  "link c pubsub w =
     (let parentPubsubs = elem pubsub 0; idn = elem pubsub 1; globs = drop 2 pubsub in
      if is_string parentPubsubs then
        (if is_string idn then (Inl (TypeError ''ID cannot be a string.''), w)
         else register_globals ([idn] @ globs) (the_string parentPubsubs) (PSObj c) w)
      else
        (if \<not> is_string idn then (Inl (TypeError ''ID must be a string.''), w)
         else
           (case prop_set parentPubsubs (the_string idn) (PSObj c) w of
              (Inl e, w') \<Rightarrow> (Inl e, w')
            | (Inr _, w') \<Rightarrow> register_globals globs (the_string idn) (PSObj c) w')))"

definition constructor :: "linkarg list option \<Rightarrow> world \<Rightarrow> cid res" where
  "constructor props w =
     (let c = next_cid w;
          w0 = w\<lparr>next_cid := Suc c, comps := (comps w)(c := new_component)\<rparr>
      in case props of
           None \<Rightarrow> (Inr c, w0)
         | Some pubsub \<Rightarrow>
             (case link c pubsub w0 of
                (Inl e, w') \<Rightarrow> (Inl e, w')
              | (Inr _, w') \<Rightarrow> (Inr c, w')))"

section \<open>Vocabulary of the properties\<close>

text \<open>The set stored under a name (empty when the name has no entry).\<close>

definition lookup_set :: "'a trigmap \<Rightarrow> key \<Rightarrow> 'a list" where
  "lookup_set m k = (case map_of m k of None \<Rightarrow> [] | Some s \<Rightarrow> s)"

text \<open>Every (name, member) pair of a map, in iteration order, and all members.\<close>

definition pairs :: "'a trigmap \<Rightarrow> (key \<times> 'a) list" where
  "pairs m = concat (map (\<lambda>(k, s). map (Pair k) s) m)"

definition members :: "'a trigmap \<Rightarrow> 'a set" where
  "members m = snd ` set (pairs m)"

text \<open>The events a step appended to the trace.\<close>

definition new_events :: "world \<Rightarrow> world \<Rightarrow> event list" where
  "new_events w w' = drop (length (events w)) (events w')"

text \<open>
  The state a successful \<^verbatim>\<open>trigger(key, ...args)\<close> leaves: the waiters of the name
  resolved, the name removed from the waiter map, the subscribers of the name called.
\<close>

definition after_trigger :: "cid \<Rightarrow> key \<Rightarrow> args \<Rightarrow> world \<Rightarrow> world" where
  "after_trigger c k a w =
     call_all (lookup_set (subscriptions (comps w c)) k) a
       (upd_comp c (\<lambda>t. t\<lparr>promises := AList.delete k (promises t),
                             subscriptions := fst (px_getTriggerSet (subscriptions t) k)\<rparr>)
          (resolve_all (lookup_set (promises (comps w c)) k) a w))"

text \<open>
  Projections of the world used as frame conditions: \<open>static\<close> is everything that
  neither a subscription nor a promise request touches, \<open>promise_part\<close> everything a
  subscription leaves alone.
\<close>

definition static :: "world \<Rightarrow> (xid \<Rightarrow> pubsubproxy) \<times> (gid \<Rightarrow> slots) \<times> (oid \<Rightarrow> slots) \<times> event list
    \<times> nat \<times> nat \<times> nat \<times> (cid \<Rightarrow> bool) \<times> (cid \<Rightarrow> slots)" where
  "static w = (proxies w, globals w, plains w, events w, next_xid w, next_cid w, next_gid w,
     (\<lambda>c. finalized (comps w c)), (\<lambda>c. ps (comps w c)))"

definition subs_of :: "world \<Rightarrow> cid \<Rightarrow> cb trigmap" where
  "subs_of w c = subscriptions (comps w c)"

definition waits_of :: "world \<Rightarrow> cid \<Rightarrow> pid trigmap" where
  "waits_of w c = promises (comps w c)"

definition promise_part :: "world \<Rightarrow> (cid \<Rightarrow> pid trigmap) \<times> (pid \<Rightarrow> pstate) \<times> (pid \<times> pid) list
    \<times> (pid \<times> args) list \<times> nat" where
  "promise_part w = (waits_of w, pstates w, reactions w, jobs w, next_pid w)"

text \<open>The \<^verbatim>\<open>sub\<close> surface of a handle called once for every pair of a list, in order.\<close>

definition sub_all :: "handle \<Rightarrow> (key \<times> cb) list \<Rightarrow> world \<Rightarrow> world" where
  "sub_all h kfs w = fold (\<lambda>(k, f) w. snd (handle_sub h k f w)) kfs w"

text \<open>A small world for concrete checks: component 0 with one waiter and one subscriber of \<open>m\<close>.\<close>

definition example_world :: world where
  "example_world = snd (comp_sub 0 ''m'' 7 (snd (triggerPromise 0 ''m'' init_world)))"

text \<open>
  The \<^verbatim>\<open>async\<close> surface of a handle awaited once for every (name, resolver) pair of a
  list, in order; the relays this registers when the promises are numbered from \<open>n\<close>, and
  the waiters it adds to the target.
\<close>

definition relay_all :: "handle \<Rightarrow> (key \<times> pid) list \<Rightarrow> world \<Rightarrow> world" where
  "relay_all h krs w = fold (\<lambda>(k, r) w. forward_one h k r w) krs w"



text \<open>The state a placeholder's \<^verbatim>\<open>finalize\<close> leaves when the target is not sealed.\<close>

definition after_px_finalize :: "xid \<Rightarrow> handle \<Rightarrow> world \<Rightarrow> world" where
  "after_px_finalize x h w =
     upd_proxy x (\<lambda>p. p\<lparr>px_promises := [], px_subscriptions := []\<rparr>)
       (sub_all h (pairs (px_subscriptions (proxies w x)))
          (relay_all h (pairs (px_promises (proxies w x))) w))"

text \<open>A placeholder with one buffered subscription, in the initial world.\<close>

definition example_placeholder :: world where
  "example_placeholder = snd (px_sub 0 ''m'' 7 init_world)"

text \<open>The state \<^verbatim>\<open>finalizeTriggers\<close> leaves when it forwards to another, unsealed component.\<close>

definition after_finalizeTriggers :: "cid \<Rightarrow> handle \<Rightarrow> world \<Rightarrow> world" where
  "after_finalizeTriggers c h w =
     upd_comp c (\<lambda>t. t\<lparr>promises := [], subscriptions := []\<rparr>)
       (sub_all h (pairs (subscriptions (comps w c)))
          (relay_all h (pairs (promises (comps w c)))
             (upd_comp c (\<lambda>t. t\<lparr>finalized := True\<rparr>) w)))"

text \<open>
  The component 0 of \<open>example_world\<close> as a parent whose \<^verbatim>\<open>ps\<close> slot \<open>a\<close> holds the
  handle of a first child, component 1.
\<close>

definition example_parent :: world where
  "example_parent = snd (ps_set 0 ''a'' (PSObj 1) example_world)"


text \<open>\<open>n\<close> promise requests for one name on one component, one after the other.\<close>

fun wait_n :: "nat \<Rightarrow> cid \<Rightarrow> key \<Rightarrow> world \<Rightarrow> pid list \<times> world" where
  "wait_n 0 c k w = ([], w)"
| "wait_n (Suc n) c k w =
     (case triggerPromise c k w of
        (q, w1) \<Rightarrow> (case wait_n n c k w1 of (qs, w2) \<Rightarrow> (q # qs, w2)))"

section \<open>Executions\<close>

text \<open>
  The two named registries share their protocol; a registry is addressed by the component
  that owns the \<^verbatim>\<open>ps\<close> proxy or by the identifier of the global registry.
\<close>

datatype regref = Scoped cid | Global gid

fun entries :: "world \<Rightarrow> regref \<Rightarrow> slots" where
  "entries w (Scoped c) = ps (comps w c)"
| "entries w (Global g) = globals w g"


fun reg_get :: "regref \<Rightarrow> key \<Rightarrow> world \<Rightarrow> occupant res" where
  "reg_get (Scoped c) n w = ps_get c n w"
| "reg_get (Global g) n w = global_get g n w"

fun reg_set :: "regref \<Rightarrow> key \<Rightarrow> handle \<Rightarrow> world \<Rightarrow> unit res" where
  "reg_set (Scoped c) n v w = ps_set c n v w"
| "reg_set (Global g) n v w = global_set g n v w"


text \<open>The surfaces \<^verbatim>\<open>sub\<close>, \<^verbatim>\<open>unsub\<close> and \<^verbatim>\<open>async\<close> of whatever a registry read returned.\<close>

fun occ_sub :: "occupant \<Rightarrow> key \<Rightarrow> cb \<Rightarrow> world \<Rightarrow> unit res" where
  "occ_sub (Placeholder x) k f w = px_sub x k f w"
| "occ_sub (Real h) k f w = handle_sub h k f w"

fun occ_unsub :: "occupant \<Rightarrow> key \<Rightarrow> cb \<Rightarrow> world \<Rightarrow> unit res" where
  "occ_unsub (Placeholder x) k f w = px_unsub x k f w"
| "occ_unsub (Real h) k f w = comp_unsub (handle_cid h) k f w"

fun occ_async :: "occupant \<Rightarrow> key \<Rightarrow> world \<Rightarrow> pid \<times> world" where
  "occ_async (Placeholder x) k w = px_async x k w"
| "occ_async (Real h) k w = handle_async h k w"

text \<open>
  The operations of a program on the library, one at a time: the consumer surface of a
  handle or placeholder, a trigger by the owner, a direct call of
  \<^verbatim>\<open>_finalizeTriggers\<close> or of a placeholder's \<^verbatim>\<open>finalize\<close>, a registry read or write,
  the construction of a component or of a global registry, and one microtask of the
  JavaScript job queue. The value of a registry write is the handle of a publisher. An
  operation that raises leaves the state it had reached.
\<close>

datatype op =
    Sub occupant key cb
  | Unsub occupant key cb
  | Wait occupant key
  | Fire cid key args
  | Finalize cid handle
  | PxFinalize xid handle
  | Get regref key
  | Put regref key handle
  | New "linkarg list option"
  | NewGlobal
  | Microtask

fun exec :: "op \<Rightarrow> world \<Rightarrow> world" where
  "exec (Sub oc k f) w = snd (occ_sub oc k f w)"
| "exec (Unsub oc k f) w = snd (occ_unsub oc k f w)"
| "exec (Wait oc k) w = snd (occ_async oc k w)"
| "exec (Fire c k a) w = snd (trigger c k a w)"
| "exec (Finalize c h) w = snd (finalizeTriggers c h w)"
| "exec (PxFinalize x h) w = snd (px_finalize x h w)"
| "exec (Get r n) w = snd (reg_get r n w)"
| "exec (Put r n v) w = snd (reg_set r n v w)"
| "exec (New props) w = snd (constructor props w)"
| "exec NewGlobal w = snd (GlobalPubSub w)"
| "exec Microtask w = run_microtask w"

definition run :: "op list \<Rightarrow> world \<Rightarrow> world" where
  "run os w = fold exec os w"

text \<open>The contents of all registry slots, and the placeholder counter.\<close>

definition ps_of :: "world \<Rightarrow> cid \<Rightarrow> slots" where
  "ps_of w c = ps (comps w c)"

definition slotpart :: "world \<Rightarrow> (cid \<Rightarrow> slots) \<times> (gid \<Rightarrow> slots) \<times> (oid \<Rightarrow> slots) \<times> nat" where
  "slotpart w = (ps_of w, globals w, plains w, next_xid w)"

text \<open>Placeholder \<open>x\<close> exists and occupies no slot of any registry.\<close>

definition unslotted :: "xid \<Rightarrow> world \<Rightarrow> bool" where
  "unslotted x w =
     (x < next_xid w
      \<and> (\<forall>c n. ps_of w c n \<noteq> Some (Placeholder x))
      \<and> (\<forall>g n. globals w g n \<noteq> Some (Placeholder x))
      \<and> (\<forall>ob n. plains w ob n \<noteq> Some (Placeholder x)))"


definition keeps :: "xid \<Rightarrow> world \<Rightarrow> world \<Rightarrow> bool" where
  "keeps x w w' = (unslotted x w \<longrightarrow> unslotted x w' \<and> proxies w' x = proxies w x)"

text \<open>An operation on placeholder \<open>x\<close> itself.\<close>

fun direct :: "xid \<Rightarrow> op \<Rightarrow> bool" where
  "direct x (Sub oc k f) = (oc = Placeholder x)"
| "direct x (Unsub oc k f) = (oc = Placeholder x)"
| "direct x (Wait oc k) = (oc = Placeholder x)"
| "direct x (PxFinalize y h) = (y = x)"
| "direct x _ = False"

text \<open>
  Promise \<open>q\<close> has no resolver in any buffer but those of the placeholders in \<open>X\<close>: not
  among the waiters of a component or of another placeholder, and no relay or queued
  continuation will resolve it.
\<close>

definition pid_absent :: "pid \<Rightarrow> xid set \<Rightarrow> world \<Rightarrow> bool" where
  "pid_absent q X w =
     ((\<forall>c. q \<notin> members (promises (comps w c)))
      \<and> (\<forall>x. x \<notin> X \<longrightarrow> q \<notin> members (px_promises (proxies w x)))
      \<and> q \<notin> snd ` set (reactions w)
      \<and> q \<notin> fst ` set (jobs w))"

text \<open>
  A step that allocates promises only from the counter and, for a promise \<open>q\<close> it did not
  allocate, keeps \<open>q\<close> out of every buffer it was out of and leaves its state alone.
\<close>

definition pid_step :: "pid \<Rightarrow> xid set \<Rightarrow> world \<Rightarrow> world \<Rightarrow> bool" where
  "pid_step q X w w' =
     (next_pid w \<le> next_pid w'
      \<and> (pid_absent q X w \<and> (q < next_pid w \<or> next_pid w' \<le> q)
           \<longrightarrow> pid_absent q X w' \<and> pstates w' q = pstates w q))"


definition called :: "cb \<Rightarrow> world \<Rightarrow> args set" where
  "called f w = {a. Called f a \<in> set (events w)}"


text \<open>
  What a relation between a state and a later state must satisfy to hold across a registry
  write and a construction, when the placeholders in \<open>X\<close> occupy no slot: it is a preorder,
  and it holds across \<^verbatim>\<open>finalize\<close> of any other placeholder, across
  \<^verbatim>\<open>finalizeTriggers\<close>, across the store of a handle in a slot and across the creation
  of a component.
\<close>

definition step_closed :: "xid set \<Rightarrow> (world \<Rightarrow> world \<Rightarrow> bool) \<Rightarrow> bool" where
  "step_closed X R =
     ((\<forall>w. R w w)
      \<and> (\<forall>w1 w2 w3. R w1 w2 \<longrightarrow> R w2 w3 \<longrightarrow> R w1 w3)
      \<and> (\<forall>w y h. y \<notin> X \<longrightarrow> R w (snd (px_finalize y h w)))
      \<and> (\<forall>w c h. R w (snd (finalizeTriggers c h w)))
      \<and> (\<forall>w c n v. R w (upd_comp c (\<lambda>t. t\<lparr>ps := (ps t)(n \<mapsto> Real v)\<rparr>) w))
      \<and> (\<forall>w g n v. R w (w\<lparr>globals := (globals w)(g := (globals w g)(n \<mapsto> Real v))\<rparr>))
      \<and> (\<forall>w ob n v. R w (w\<lparr>plains := (plains w)(ob := (plains w ob)(n \<mapsto> Real v))\<rparr>))
      \<and> (\<forall>w. R w (w\<lparr>next_cid := Suc (next_cid w), comps := (comps w)(next_cid w := new_component)\<rparr>)))"

definition all_unslotted :: "xid set \<Rightarrow> world \<Rightarrow> bool" where
  "all_unslotted X w = (\<forall>x \<in> X. unslotted x w)"

text \<open>
  What no step undoes: the counters only grow, a sealed component that exists stays
  sealed, and a settled promise that exists keeps its state.
\<close>

definition mono_step :: "world \<Rightarrow> world \<Rightarrow> bool" where
  "mono_step w w' =
     (next_pid w \<le> next_pid w' \<and> next_cid w \<le> next_cid w'
      \<and> (\<forall>c. c < next_cid w \<longrightarrow> finalized (comps w c) \<longrightarrow> finalized (comps w' c))
      \<and> (\<forall>q. q < next_pid w \<longrightarrow> pstates w q \<noteq> Pending \<longrightarrow> pstates w' q = pstates w q))"








text \<open>
  A program for concrete checks: a global registry is created and its slot \<open>child\<close> read
  before any publisher exists, the placeholder is subscribed once, a component is created;
  later steps subscribe and wait on the same placeholder and trigger the component. In
  \<open>example_refused\<close> the component has been sealed after that, so a write of its handle
  into the slot makes the placeholder forward to a sealed target.
\<close>

definition example_history :: "op list" where
  "example_history =
     [NewGlobal, Get (Global 0) ''child'', Sub (Placeholder 0) ''ping'' 7, New None]"


definition example_late :: "op list" where
  "example_late = [Sub (Placeholder 0) ''ping'' 8, Fire 0 ''ping'' [1]]"


text \<open>
  The representation invariant of the four kinds of maps: a JavaScript \<^verbatim>\<open>Map\<close> has each
  key once and a \<^verbatim>\<open>Set\<close> each member once.
\<close>

definition maps_wf :: "world \<Rightarrow> bool" where
  "maps_wf w =
     ((\<forall>c. wf_trigmap (promises (comps w c)) \<and> wf_trigmap (subscriptions (comps w c)))
      \<and> (\<forall>x. wf_trigmap (px_promises (proxies w x)) \<and> wf_trigmap (px_subscriptions (proxies w x))))"

definition wf_step :: "world \<Rightarrow> world \<Rightarrow> bool" where
  "wf_step w w' = (maps_wf w \<longrightarrow> maps_wf w')"

section \<open>Basic facts\<close>

lemma set_add_idem: "set_add (set_add s v) v = set_add s v"
  by (simp add: set_add_def)

lemma upd_comp_fields [simp]:
  "comps (upd_comp c f w) = (comps w)(c := f (comps w c))"
  "proxies (upd_comp c f w) = proxies w"
  "globals (upd_comp c f w) = globals w"
  "plains (upd_comp c f w) = plains w"
  "pstates (upd_comp c f w) = pstates w"
  "reactions (upd_comp c f w) = reactions w"
  "jobs (upd_comp c f w) = jobs w"
  "events (upd_comp c f w) = events w"
  "next_pid (upd_comp c f w) = next_pid w"
  "next_xid (upd_comp c f w) = next_xid w"
  "next_cid (upd_comp c f w) = next_cid w"
  "next_gid (upd_comp c f w) = next_gid w"
  by (simp_all add: upd_comp_def)

lemma upd_proxy_fields [simp]:
  "comps (upd_proxy x f w) = comps w"
  "proxies (upd_proxy x f w) = (proxies w)(x := f (proxies w x))"
  "globals (upd_proxy x f w) = globals w"
  "plains (upd_proxy x f w) = plains w"
  "pstates (upd_proxy x f w) = pstates w"
  "reactions (upd_proxy x f w) = reactions w"
  "jobs (upd_proxy x f w) = jobs w"
  "events (upd_proxy x f w) = events w"
  "next_pid (upd_proxy x f w) = next_pid w"
  "next_xid (upd_proxy x f w) = next_xid w"
  "next_cid (upd_proxy x f w) = next_cid w"
  "next_gid (upd_proxy x f w) = next_gid w"
  by (simp_all add: upd_proxy_def)

lemma resolve_fields [simp]:
  "comps (resolve p v w) = comps w"
  "proxies (resolve p v w) = proxies w"
  "globals (resolve p v w) = globals w"
  "plains (resolve p v w) = plains w"
  "next_pid (resolve p v w) = next_pid w"
  "next_xid (resolve p v w) = next_xid w"
  "next_cid (resolve p v w) = next_cid w"
  "next_gid (resolve p v w) = next_gid w"
  by (simp_all add: resolve_def split: pstate.split)

lemma resolve_pstates:
  "pstates (resolve p v w) q =
     (if q = p \<and> pstates w p = Pending then Fulfilled v else pstates w q)"
  by (simp add: resolve_def split: pstate.split)

lemma resolve_events:
  "events (resolve p v w) =
     events w @ (if pstates w p = Pending then [Resolved p v] else [])"
  by (simp add: resolve_def split: pstate.split)

lemma resolve_comps_update: "resolve p v (w\<lparr>comps := X\<rparr>) = (resolve p v w)\<lparr>comps := X\<rparr>"
  by (simp add: resolve_def split: pstate.split)

lemma resolve_upd_comp: "resolve p v (upd_comp c f w) = upd_comp c f (resolve p v w)"
  by (simp add: resolve_def upd_comp_def split: pstate.split)

lemma resolve_all_fields [simp]:
  "comps (resolve_all s a w) = comps w"
  "proxies (resolve_all s a w) = proxies w"
  "globals (resolve_all s a w) = globals w"
  "plains (resolve_all s a w) = plains w"
  "next_pid (resolve_all s a w) = next_pid w"
  "next_xid (resolve_all s a w) = next_xid w"
  "next_cid (resolve_all s a w) = next_cid w"
  "next_gid (resolve_all s a w) = next_gid w"
  by (induction s arbitrary: w; simp add: resolve_all_def)+

lemma resolve_all_Nil [simp]: "resolve_all [] a w = w"
  by (simp add: resolve_all_def)

lemma resolve_all_Cons [simp]: "resolve_all (p # s) a w = resolve_all s a (resolve p a w)"
  by (simp add: resolve_all_def)

lemma resolve_all_pstates:
  "pstates (resolve_all s a w) q =
     (if q \<in> set s \<and> pstates w q = Pending then Fulfilled a else pstates w q)"
  by (induction s arbitrary: w) (auto simp: resolve_pstates)

lemma resolve_all_events:
  "distinct s \<Longrightarrow>
   events (resolve_all s a w) =
     events w @ map (\<lambda>p. Resolved p a) (filter (\<lambda>p. pstates w p = Pending) s)"
proof (induction s arbitrary: w)
  case Nil
  then show ?case by simp
next
  case (Cons p s)
  have "filter (\<lambda>q. pstates (resolve p a w) q = Pending) s = filter (\<lambda>q. pstates w q = Pending) s"
    using Cons.prems by (intro filter_cong) (auto simp: resolve_pstates)
  with Cons show ?case by (simp add: resolve_events)
qed

lemma resolve_all_upd_comp:
  "resolve_all s a (upd_comp c f w) = upd_comp c f (resolve_all s a w)"
  by (induction s arbitrary: w) (simp_all add: resolve_upd_comp)

lemma resolve_all_comps_update:
  "resolve_all s a (w\<lparr>comps := X\<rparr>) = (resolve_all s a w)\<lparr>comps := X\<rparr>"
  by (induction s arbitrary: w) (simp_all add: resolve_comps_update)

lemma call_all_fields [simp]:
  "comps (call_all s a w) = comps w"
  "proxies (call_all s a w) = proxies w"
  "globals (call_all s a w) = globals w"
  "plains (call_all s a w) = plains w"
  "pstates (call_all s a w) = pstates w"
  "reactions (call_all s a w) = reactions w"
  "jobs (call_all s a w) = jobs w"
  "next_pid (call_all s a w) = next_pid w"
  "next_xid (call_all s a w) = next_xid w"
  "next_cid (call_all s a w) = next_cid w"
  "next_gid (call_all s a w) = next_gid w"
  by (induction s arbitrary: w; simp add: call_all_def)+

lemma call_all_events: "events (call_all s a w) = events w @ map (\<lambda>f. Called f a) s"
  by (induction s arbitrary: w) (simp_all add: call_all_def)


lemma getTriggerSet_sealed:
  "finalized t \<Longrightarrow> getTriggerSet t m k = Inl AlreadyFinalized"
  by (simp add: getTriggerSet_def AlreadyFinalized_def)

lemma getTriggerSet_open:
  "\<not> finalized t \<Longrightarrow> getTriggerSet t m k = Inr (px_getTriggerSet m k)"
  by (simp add: getTriggerSet_def px_getTriggerSet_def split: option.split)

lemma px_getTriggerSet_snd: "snd (px_getTriggerSet m k) = lookup_set m k"
  by (simp add: px_getTriggerSet_def lookup_set_def split: option.split)

lemma px_getTriggerSet_eq:
  "px_getTriggerSet m k = (fst (px_getTriggerSet m k), lookup_set m k)"
  by (simp add: px_getTriggerSet_def lookup_set_def split: option.split)

lemma update_ensure:
  "AList.update k v (fst (px_getTriggerSet m k)) = AList.update k v m"
  by (simp add: px_getTriggerSet_def split: option.split)

lemma delete_ensure:
  "AList.delete k (fst (px_getTriggerSet m k)) = AList.delete k m"
  by (simp add: px_getTriggerSet_def delete_update_same split: option.split)

lemma map_of_ensure:
  "map_of (fst (px_getTriggerSet m k)) k' =
     (if k' = k then Some (lookup_set m k) else map_of m k')"
  by (simp add: px_getTriggerSet_def lookup_set_def update_conv' split: option.split)

lemma lookup_set_ensure: "lookup_set (fst (px_getTriggerSet m k)) k' = lookup_set m k'"
  by (simp add: lookup_set_def map_of_ensure)

lemma triggerSubscribe_open:
  "\<not> finalized t \<Longrightarrow>
   triggerSubscribe t k f =
     Inr (t\<lparr>subscriptions := AList.update k (set_add (lookup_set (subscriptions t) k) f) (subscriptions t)\<rparr>)"
  by (subst triggerSubscribe_def, subst getTriggerSet_open, assumption, subst px_getTriggerSet_eq)
     (simp add: update_ensure)

lemma triggerSubscribe_sealed:
  "finalized t \<Longrightarrow> triggerSubscribe t k f = Inl AlreadyFinalized"
  by (simp add: triggerSubscribe_def getTriggerSet_sealed)

lemma triggerUnsubscribe_sealed:
  "finalized t \<Longrightarrow> triggerUnsubscribe t k f = Inl AlreadyFinalized"
  by (simp add: triggerUnsubscribe_def getTriggerSet_sealed)

lemma triggerUnsubscribe_open:
  "\<not> finalized t \<Longrightarrow>
   triggerUnsubscribe t k f =
     Inr (t\<lparr>subscriptions :=
            (if set_delete (lookup_set (subscriptions t) k) f = [] then AList.delete k (subscriptions t)
             else AList.update k (set_delete (lookup_set (subscriptions t) k) f) (subscriptions t))\<rparr>)"
  by (subst triggerUnsubscribe_def, subst getTriggerSet_open, assumption, subst px_getTriggerSet_eq)
     (simp add: update_ensure delete_update_same Let_def)

lemma trigger_sealed:
  "finalized (comps w c) \<Longrightarrow> trigger c k a w = (Inl AlreadyFinalized, w)"
  by (simp add: trigger_def getTriggerSet_sealed)

lemma trigger_open:
  assumes "\<not> finalized (comps w c)"
  shows "trigger c k a w = (Inr (), after_trigger c k a w)"
proof -
  let ?t = "comps w c"
  have 1: "getTriggerSet ?t (promises ?t) k
             = Inr (fst (px_getTriggerSet (promises ?t) k), lookup_set (promises ?t) k)"
    using assms getTriggerSet_open px_getTriggerSet_eq by metis
  show ?thesis
    unfolding trigger_def Let_def 1
    using assms
    by (simp add: resolve_all_comps_update getTriggerSet_open delete_ensure case_prod_beta
          px_getTriggerSet_snd after_trigger_def upd_comp_def)
qed


lemma lookup_set_update:
  "lookup_set (AList.update k v m) k' = (if k' = k then v else lookup_set m k')"
  by (simp add: lookup_set_def update_conv')

lemma lookup_set_delete:
  "lookup_set (AList.delete k m) k' = (if k' = k then [] else lookup_set m k')"
  by (simp add: lookup_set_def delete_conv')

lemma distinct_set_add: "distinct s \<Longrightarrow> distinct (set_add s v)"
  by (simp add: set_add_def)

lemma set_set_add [simp]: "set (set_add s v) = insert v (set s)"
  by (auto simp: set_add_def)

lemma distinct_set_delete: "distinct s \<Longrightarrow> distinct (set_delete s v)"
  by (simp add: set_delete_def distinct_removeAll)

lemma set_set_delete [simp]: "set (set_delete s v) = set s - {v}"
  by (auto simp: set_delete_def)

lemma wf_trigmap_lookup: "wf_trigmap m \<Longrightarrow> distinct (lookup_set m k)"
  by (auto simp: wf_trigmap_def lookup_set_def list_all_iff split: option.split dest: map_of_SomeD)

lemma list_all_update:
  "list_all P m \<Longrightarrow> P (k, v) \<Longrightarrow> list_all P (AList.update k v m)"
  by (induction m) auto

lemma list_all_delete: "list_all P m \<Longrightarrow> list_all P (AList.delete k m)"
  by (induction m) (auto simp: AList.delete_eq)

lemma wf_trigmap_update:
  "wf_trigmap m \<Longrightarrow> distinct s \<Longrightarrow> wf_trigmap (AList.update k s m)"
  by (simp add: wf_trigmap_def distinct_update list_all_update)

lemma wf_trigmap_delete: "wf_trigmap m \<Longrightarrow> wf_trigmap (AList.delete k m)"
  by (simp add: wf_trigmap_def distinct_delete list_all_delete)

lemma wf_trigmap_Nil [simp]: "wf_trigmap []"
  by (simp add: wf_trigmap_def)

lemma wf_trigmap_ensure: "wf_trigmap m \<Longrightarrow> wf_trigmap (fst (px_getTriggerSet m k))"
  by (simp add: px_getTriggerSet_def wf_trigmap_update split: option.split)

lemma triggerSubscribe_twice:
  "triggerSubscribe t k f = Inr t' \<Longrightarrow> triggerSubscribe t' k f = Inr t'"
  by (cases "finalized t")
     (auto simp: triggerSubscribe_sealed triggerSubscribe_open lookup_set_update set_add_idem)

lemma comp_sub_sealed:
  "finalized (comps w c) \<Longrightarrow> comp_sub c k f w = (Inl AlreadyFinalized, w)"
  by (simp add: comp_sub_def triggerSubscribe_sealed)

lemma comp_unsub_sealed:
  "finalized (comps w c) \<Longrightarrow> comp_unsub c k f w = (Inl AlreadyFinalized, w)"
  by (simp add: comp_unsub_def triggerUnsubscribe_sealed)

lemma comp_sub_open:
  "\<not> finalized (comps w c) \<Longrightarrow>
   comp_sub c k f w =
     (Inr (), upd_comp c (\<lambda>t. t\<lparr>subscriptions :=
        AList.update k (set_add (lookup_set (subscriptions t) k) f) (subscriptions t)\<rparr>) w)"
  by (simp add: comp_sub_def triggerSubscribe_open upd_comp_def)


lemma px_triggerSubscribe_eq:
  "px_triggerSubscribe p k f =
     p\<lparr>px_subscriptions :=
         AList.update k (set_add (lookup_set (px_subscriptions p) k) f) (px_subscriptions p)\<rparr>"
  by (simp add: px_triggerSubscribe_def case_prod_beta px_getTriggerSet_snd update_ensure)



lemma resolve_all_events_ex:
  "\<exists>qs. events (resolve_all s a w) = events w @ map (\<lambda>p. Resolved p a) qs \<and> set qs \<subseteq> set s"
proof (induction s arbitrary: w)
  case Nil
  then show ?case by simp
next
  case (Cons p s)
  from Cons[of "resolve p a w"] obtain qs where
    qs: "events (resolve_all s a (resolve p a w)) = events (resolve p a w) @ map (\<lambda>p. Resolved p a) qs"
      "set qs \<subseteq> set s" by blast
  show ?case
  proof (cases "pstates w p = Pending")
    case True
    with qs have "events (resolve_all (p # s) a w) = events w @ map (\<lambda>p. Resolved p a) (p # qs)
        \<and> set (p # qs) \<subseteq> set (p # s)"
      by (auto simp: resolve_events)
    then show ?thesis by blast
  next
    case False
    with qs have "events (resolve_all (p # s) a w) = events w @ map (\<lambda>p. Resolved p a) qs
        \<and> set qs \<subseteq> set (p # s)"
      by (auto simp: resolve_events)
    then show ?thesis by blast
  qed
qed

lemma count_list_Called_Resolved [simp]:
  "count_list (map (\<lambda>p. Resolved p a) qs) (Called f b) = 0"
  by (induction qs) auto

lemma count_list_Called [simp]:
  "count_list (map (\<lambda>g. Called g a) s) (Called f a) = count_list s f"
  by (induction s) auto

lemma count_list_distinct_mem: "distinct s \<Longrightarrow> f \<in> set s \<Longrightarrow> count_list s f = 1"
  by (induction s) auto

lemma after_trigger_events:
  "events (after_trigger c k a w) =
     events (resolve_all (lookup_set (promises (comps w c)) k) a w)
       @ map (\<lambda>f. Called f a) (lookup_set (subscriptions (comps w c)) k)"
  by (simp add: after_trigger_def call_all_events)

lemma new_events_append [simp]: "events w' = events w @ es \<Longrightarrow> new_events w w' = es"
  by (simp add: new_events_def)

lemma after_trigger_count:
  "count_list (new_events w (after_trigger c k a w)) (Called f a)
     = count_list (lookup_set (subscriptions (comps w c)) k) f"
proof -
  obtain qs where "events (resolve_all (lookup_set (promises (comps w c)) k) a w)
      = events w @ map (\<lambda>p. Resolved p a) qs"
    using resolve_all_events_ex by blast
  then have "events (after_trigger c k a w)
      = events w @ (map (\<lambda>p. Resolved p a) qs @ map (\<lambda>f. Called f a) (lookup_set (subscriptions (comps w c)) k))"
    by (simp add: after_trigger_events)
  then have "new_events w (after_trigger c k a w)
      = map (\<lambda>p. Resolved p a) qs @ map (\<lambda>f. Called f a) (lookup_set (subscriptions (comps w c)) k)"
    by (rule new_events_append)
  then show ?thesis by simp
qed

lemma static_D:
  assumes "static w' = static w"
  shows "proxies w' = proxies w" "globals w' = globals w" "plains w' = plains w"
    "events w' = events w" "next_xid w' = next_xid w" "next_cid w' = next_cid w"
    "next_gid w' = next_gid w" "finalized (comps w' c) = finalized (comps w c)"
    "ps (comps w' c) = ps (comps w c)"
  using assms by (auto simp: static_def dest: fun_cong)

lemma promise_part_D:
  assumes "promise_part w' = promise_part w"
  shows "promises (comps w' c) = promises (comps w c)" "pstates w' = pstates w"
    "reactions w' = reactions w" "jobs w' = jobs w" "next_pid w' = next_pid w"
  using assms by (auto simp: promise_part_def waits_of_def dest: fun_cong)

lemma triggerPromise_static: "static (snd (triggerPromise c k w)) = static w"
  by (auto simp: triggerPromise_def static_def Let_def getTriggerSet_def fun_eq_iff
           split: option.split)

lemma triggerPromise_subs: "subs_of (snd (triggerPromise c k w)) = subs_of w"
  by (auto simp: triggerPromise_def subs_of_def Let_def getTriggerSet_def fun_eq_iff
           split: option.split)

lemma await_relay_static: "static (await_relay q r w) = static w"
  by (simp add: await_relay_def static_def split: pstate.split)

lemma await_relay_subs: "subs_of (await_relay q r w) = subs_of w"
  by (simp add: await_relay_def subs_of_def fun_eq_iff split: pstate.split)

lemma forward_one_static: "static (forward_one h k r w) = static w"
  using triggerPromise_static[of "handle_cid h" k w]
  by (simp add: forward_one_def handle_async_def case_prod_beta await_relay_static)

lemma forward_one_subs: "subs_of (forward_one h k r w) = subs_of w"
  using triggerPromise_subs[of "handle_cid h" k w]
  by (simp add: forward_one_def handle_async_def case_prod_beta await_relay_subs)

lemma fold_forward_one_static: "static (fold (forward_one h k) s w) = static w"
  by (induction s arbitrary: w) (simp_all add: forward_one_static)

lemma fold_forward_one_subs: "subs_of (fold (forward_one h k) s w) = subs_of w"
  by (induction s arbitrary: w) (simp_all add: forward_one_subs)

lemma forward_promises_static: "static (forward_promises h m w) = static w"
  unfolding forward_promises_def
  by (induction m arbitrary: w) (simp_all add: case_prod_beta fold_forward_one_static)

lemma forward_promises_subs: "subs_of (forward_promises h m w) = subs_of w"
  unfolding forward_promises_def
  by (induction m arbitrary: w) (simp_all add: case_prod_beta fold_forward_one_subs)

lemma comp_sub_static: "static (snd (comp_sub c k f w)) = static w"
  by (cases "finalized (comps w c)")
     (auto simp: comp_sub_sealed comp_sub_open static_def fun_eq_iff)

lemma comp_sub_promise_part: "promise_part (snd (comp_sub c k f w)) = promise_part w"
  by (cases "finalized (comps w c)")
     (auto simp: comp_sub_sealed comp_sub_open promise_part_def waits_of_def fun_eq_iff)

lemma register_set_static: "static (snd (register_set h k s w)) = static w"
proof (induction s arbitrary: w)
  case Nil
  then show ?case by simp
next
  case (Cons f s)
  obtain r w1 where e: "comp_sub (handle_cid h) k f w = (r, w1)" by force
  then have "static w1 = static w"
    using comp_sub_static[of "handle_cid h" k f w] by simp
  then show ?case
    using Cons[of w1] by (cases r) (simp_all add: handle_sub_def e)
qed

lemma register_set_promise_part: "promise_part (snd (register_set h k s w)) = promise_part w"
proof (induction s arbitrary: w)
  case Nil
  then show ?case by simp
next
  case (Cons f s)
  obtain r w1 where e: "comp_sub (handle_cid h) k f w = (r, w1)" by force
  then have "promise_part w1 = promise_part w"
    using comp_sub_promise_part[of "handle_cid h" k f w] by simp
  then show ?case
    using Cons[of w1] by (cases r) (simp_all add: handle_sub_def e)
qed

lemma register_all_static: "static (snd (register_all h m w)) = static w"
proof (induction m arbitrary: w)
  case Nil
  then show ?case by simp
next
  case (Cons ks m)
  obtain k s where ks: "ks = (k, s)" by (cases ks)
  obtain r w1 where e: "register_set h k s w = (r, w1)" by force
  then have "static w1 = static w"
    using register_set_static[of h k s w] by simp
  then show ?case
    using Cons[of w1] by (cases r) (simp_all add: ks e)
qed

lemma register_all_promise_part: "promise_part (snd (register_all h m w)) = promise_part w"
proof (induction m arbitrary: w)
  case Nil
  then show ?case by simp
next
  case (Cons ks m)
  obtain k s where ks: "ks = (k, s)" by (cases ks)
  obtain r w1 where e: "register_set h k s w = (r, w1)" by force
  then have "promise_part w1 = promise_part w"
    using register_set_promise_part[of h k s w] by simp
  then show ?case
    using Cons[of w1] by (cases r) (simp_all add: ks e)
qed


lemma sub_all_Nil [simp]: "sub_all h [] w = w"
  by (simp add: sub_all_def)

lemma sub_all_Cons [simp]: "sub_all h ((k, f) # kfs) w = sub_all h kfs (snd (handle_sub h k f w))"
  by (simp add: sub_all_def)

lemma sub_all_append [simp]: "sub_all h (xs @ ys) w = sub_all h ys (sub_all h xs w)"
  by (simp add: sub_all_def)

lemma pairs_Nil [simp]: "pairs [] = []"
  by (simp add: pairs_def)

lemma pairs_Cons [simp]: "pairs ((k, s) # m) = map (Pair k) s @ pairs m"
  by (simp add: pairs_def)

lemma set_pairs: "set (pairs m) = {(k, f). \<exists>s. (k, s) \<in> set m \<and> f \<in> set s}"
  by (induction m) (auto simp: pairs_def)

lemma pairs_lookup:
  "distinct (map fst m) \<Longrightarrow> (k, f) \<in> set (pairs m) \<longleftrightarrow> f \<in> set (lookup_set m k)"
  by (auto simp: set_pairs lookup_set_def split: option.split dest: map_of_SomeD
           intro: map_of_is_SomeI)

lemma distinct_pairs: "wf_trigmap m \<Longrightarrow> distinct (pairs m)"
proof (induction m)
  case Nil
  then show ?case by simp
next
  case (Cons ks m)
  obtain k s where ks: "ks = (k, s)" by (cases ks)
  from Cons.prems have wf: "wf_trigmap m" and d: "distinct s" and k: "k \<notin> fst ` set m"
    by (auto simp: wf_trigmap_def ks)
  have "set (map (Pair k) s) \<inter> set (pairs m) = {}"
    using k by (auto simp: set_pairs) (metis fst_conv image_eqI)
  with Cons.IH[OF wf] d show ?case
    by (simp add: ks distinct_map inj_on_def)
qed

lemma handle_sub_static: "static (snd (handle_sub h k f w)) = static w"
  by (simp add: handle_sub_def comp_sub_static)

lemma handle_sub_promise_part: "promise_part (snd (handle_sub h k f w)) = promise_part w"
  by (simp add: handle_sub_def comp_sub_promise_part)

lemma register_set_open:
  "\<not> finalized (comps w (handle_cid h)) \<Longrightarrow>
   register_set h k s w = (Inr (), sub_all h (map (Pair k) s) w)"
proof (induction s arbitrary: w)
  case Nil
  then show ?case by simp
next
  case (Cons f s)
  let ?w1 = "snd (handle_sub h k f w)"
  have 1: "handle_sub h k f w = (Inr (), ?w1)"
    using Cons.prems by (simp add: handle_sub_def comp_sub_open)
  have "\<not> finalized (comps ?w1 (handle_cid h))"
    using Cons.prems static_D(8)[OF handle_sub_static] by simp
  from Cons.IH[OF this] show ?case
    by (subst register_set.simps, subst 1) simp
qed

lemma sub_all_static: "static (sub_all h kfs w) = static w"
  by (induction kfs arbitrary: w) (auto simp: handle_sub_static)

lemma sub_all_promise_part: "promise_part (sub_all h kfs w) = promise_part w"
  by (induction kfs arbitrary: w) (auto simp: handle_sub_promise_part)

lemma register_all_open:
  "\<not> finalized (comps w (handle_cid h)) \<Longrightarrow>
   register_all h m w = (Inr (), sub_all h (pairs m) w)"
proof (induction m arbitrary: w)
  case Nil
  then show ?case by simp
next
  case (Cons ks m)
  obtain k s where ks: "ks = (k, s)" by (cases ks)
  let ?w1 = "sub_all h (map (Pair k) s) w"
  have "\<not> finalized (comps ?w1 (handle_cid h))"
    using Cons.prems static_D(8)[OF sub_all_static] by simp
  from Cons.IH[OF this] show ?case
    using Cons.prems by (simp add: ks register_set_open)
qed

lemma register_all_sealed:
  "finalized (comps w (handle_cid h)) \<Longrightarrow>
   register_all h m w = (if pairs m = [] then (Inr (), w) else (Inl AlreadyFinalized, w))"
proof (induction m)
  case Nil
  then show ?case by simp
next
  case (Cons ks m)
  obtain k s where ks: "ks = (k, s)" by (cases ks)
  show ?case
    using Cons by (cases s) (simp_all add: ks handle_sub_def comp_sub_sealed)
qed

lemma handle_sub_other:
  "c \<noteq> handle_cid h \<Longrightarrow> comps (snd (handle_sub h k f w)) c = comps w c"
  by (cases "finalized (comps w (handle_cid h))")
     (simp_all add: handle_sub_def comp_sub_sealed comp_sub_open)

lemma handle_sub_lookup:
  "\<not> finalized (comps w (handle_cid h)) \<Longrightarrow>
   lookup_set (subs_of (snd (handle_sub h k f w)) (handle_cid h)) k' =
     (if k' = k then set_add (lookup_set (subs_of w (handle_cid h)) k) f
      else lookup_set (subs_of w (handle_cid h)) k')"
  by (simp add: handle_sub_def comp_sub_open subs_of_def lookup_set_update)

lemma handle_sub_wf:
  "wf_trigmap (subs_of w c) \<Longrightarrow> wf_trigmap (subs_of (snd (handle_sub h k f w)) c)"
  by (cases "finalized (comps w (handle_cid h))")
     (auto simp: handle_sub_def comp_sub_sealed comp_sub_open subs_of_def
        intro!: wf_trigmap_update distinct_set_add wf_trigmap_lookup)

lemma sub_all_wf:
  "wf_trigmap (subs_of w c) \<Longrightarrow> wf_trigmap (subs_of (sub_all h kfs w) c)"
  by (induction kfs arbitrary: w) (auto simp: handle_sub_wf)

lemma sub_all_lookup:
  "\<not> finalized (comps w (handle_cid h)) \<Longrightarrow>
   set (lookup_set (subs_of (sub_all h kfs w) (handle_cid h)) k) =
     set (lookup_set (subs_of w (handle_cid h)) k) \<union> {f. (k, f) \<in> set kfs}"
proof (induction kfs arbitrary: w)
  case Nil
  then show ?case by simp
next
  case (Cons kf kfs)
  obtain k' f where kf: "kf = (k', f)" by (cases kf)
  let ?w1 = "snd (handle_sub h k' f w)"
  have "\<not> finalized (comps ?w1 (handle_cid h))"
    using Cons.prems static_D(8)[OF handle_sub_static] by simp
  from Cons.IH[OF this] show ?case
    using Cons.prems by (auto simp: kf handle_sub_lookup)
qed

lemma sub_all_other:
  "c \<noteq> handle_cid h \<Longrightarrow> comps (sub_all h kfs w) c = comps w c"
  by (induction kfs arbitrary: w) (auto simp: handle_sub_other)


lemma after_trigger_comp:
  "comps (after_trigger c k a w) c' =
     (if c' = c then (comps w c)\<lparr>promises := AList.delete k (promises (comps w c)),
                      subscriptions := fst (px_getTriggerSet (subscriptions (comps w c)) k)\<rparr>
      else comps w c')"
  by (simp add: after_trigger_def)

lemma after_trigger_pstates:
  "pstates (after_trigger c k a w) q =
     (if q \<in> set (lookup_set (promises (comps w c)) k) \<and> pstates w q = Pending then Fulfilled a
      else pstates w q)"
  by (simp add: after_trigger_def resolve_all_pstates)

lemma after_trigger_static:
  "proxies (after_trigger c k a w) = proxies w"
  "globals (after_trigger c k a w) = globals w"
  "plains (after_trigger c k a w) = plains w"
  "next_pid (after_trigger c k a w) = next_pid w"
  "next_xid (after_trigger c k a w) = next_xid w"
  "next_cid (after_trigger c k a w) = next_cid w"
  "next_gid (after_trigger c k a w) = next_gid w"
  by (simp_all add: after_trigger_def)

lemma triggerPromise_sealed:
  "finalized (comps w c) \<Longrightarrow>
   triggerPromise c k w =
     (next_pid w, w\<lparr>next_pid := Suc (next_pid w),
                       pstates := (pstates w)(next_pid w := Rejected AlreadyFinalized)\<rparr>)"
  by (simp add: triggerPromise_def Let_def getTriggerSet_sealed)

lemma triggerPromise_open:
  "\<not> finalized (comps w c) \<Longrightarrow>
   triggerPromise c k w =
     (next_pid w,
      upd_comp c (\<lambda>t. t\<lparr>promises := AList.update k (set_add (lookup_set (promises t) k) (next_pid w)) (promises t)\<rparr>)
        (w\<lparr>next_pid := Suc (next_pid w), pstates := (pstates w)(next_pid w := Pending)\<rparr>))"
  by (simp add: triggerPromise_def Let_def getTriggerSet_open case_prod_beta
        px_getTriggerSet_snd update_ensure upd_comp_def)

lemma finalizeTriggers_sealed:
  "finalized (comps w c) \<Longrightarrow> finalizeTriggers c h w = (Inl AlreadyFinalized, w)"
  by (simp add: finalizeTriggers_def AlreadyFinalized_def)

lemma finalizeTriggers_seals: "finalized (comps (snd (finalizeTriggers c h w)) c)"
proof (cases "finalized (comps w c)")
  case True
  then show ?thesis by (simp add: finalizeTriggers_sealed)
next
  case False
  let ?w0 = "upd_comp c (\<lambda>t. t\<lparr>finalized := True\<rparr>) w"
  let ?w1 = "forward_promises h (promises (comps w c)) ?w0"
  obtain r w2 where e: "register_all h (subscriptions (comps w c)) ?w1 = (r, w2)" by force
  have "static w2 = static ?w0"
    using register_all_static[of h "subscriptions (comps w c)" ?w1]
    by (simp add: e forward_promises_static)
  from static_D(8)[OF this, of c] have "finalized (comps w2 c)" by simp
  then show ?thesis
    using False by (cases r) (simp_all add: finalizeTriggers_def Let_def e)
qed

lemma example_world_open: "\<not> finalized (comps example_world 0)"
  by (simp add: example_world_def init_world_def new_component_def triggerPromise_open comp_sub_open)

lemma example_world_promises: "promises (comps example_world 0) = [(''m'', [0])]"
  by (simp add: example_world_def init_world_def new_component_def triggerPromise_open
        comp_sub_open lookup_set_def set_add_def)

lemma example_world_subscriptions: "subscriptions (comps example_world 0) = [(''m'', [7])]"
  by (simp add: example_world_def init_world_def new_component_def triggerPromise_open
        comp_sub_open lookup_set_def set_add_def)

lemma relay_all_Nil [simp]: "relay_all h [] w = w"
  by (simp add: relay_all_def)

lemma relay_all_Cons [simp]: "relay_all h ((k, r) # krs) w = relay_all h krs (forward_one h k r w)"
  by (simp add: relay_all_def)

lemma relay_all_append [simp]: "relay_all h (xs @ ys) w = relay_all h ys (relay_all h xs w)"
  by (simp add: relay_all_def)

lemma fold_forward_one: "fold (forward_one h k) s w = relay_all h (map (Pair k) s) w"
  by (induction s arbitrary: w) simp_all

lemma forward_promises_eq: "forward_promises h m w = relay_all h (pairs m) w"
  unfolding forward_promises_def
  by (induction m arbitrary: w) (auto simp: fold_forward_one)

lemma forward_one_open:
  "\<not> finalized (comps w (handle_cid h)) \<Longrightarrow>
   forward_one h k r w =
     upd_comp (handle_cid h)
       (\<lambda>t. t\<lparr>promises := AList.update k (set_add (lookup_set (promises t) k) (next_pid w)) (promises t)\<rparr>)
       (w\<lparr>next_pid := Suc (next_pid w), pstates := (pstates w)(next_pid w := Pending),
          reactions := reactions w @ [(next_pid w, r)]\<rparr>)"
  by (simp add: forward_one_def handle_async_def triggerPromise_open await_relay_def upd_comp_def)

lemma forward_one_sealed:
  "finalized (comps w (handle_cid h)) \<Longrightarrow>
   forward_one h k r w =
     w\<lparr>next_pid := Suc (next_pid w), pstates := (pstates w)(next_pid w := Rejected AlreadyFinalized)\<rparr>"
  by (simp add: forward_one_def handle_async_def triggerPromise_sealed await_relay_def)

lemma relay_all_static: "static (relay_all h krs w) = static w"
  by (induction krs arbitrary: w) (auto simp: forward_one_static)

lemma relay_all_subs: "subs_of (relay_all h krs w) = subs_of w"
  by (induction krs arbitrary: w) (auto simp: forward_one_subs)



lemma forward_one_other:
  "c \<noteq> handle_cid h \<Longrightarrow> comps (forward_one h k r w) c = comps w c"
  by (cases "finalized (comps w (handle_cid h))") (simp_all add: forward_one_open forward_one_sealed)

lemma relay_all_other:
  "c \<noteq> handle_cid h \<Longrightarrow> comps (relay_all h krs w) c = comps w c"
  by (induction krs arbitrary: w) (auto simp: forward_one_other)



lemma px_finalize_open:
  assumes "\<not> finalized (comps w (handle_cid h))"
  shows "px_finalize x h w = (Inr (), after_px_finalize x h w)"
proof -
  let ?w1 = "relay_all h (pairs (px_promises (proxies w x))) w"
  have "\<not> finalized (comps ?w1 (handle_cid h))"
    using assms static_D(8)[OF relay_all_static] by simp
  then show ?thesis
    by (simp add: px_finalize_def Let_def forward_promises_eq register_all_open
          after_px_finalize_def)
qed

lemma after_px_finalize_static:
  "events (after_px_finalize x h w) = events w"
  "globals (after_px_finalize x h w) = globals w"
  "plains (after_px_finalize x h w) = plains w"
  "next_xid (after_px_finalize x h w) = next_xid w"
  "next_cid (after_px_finalize x h w) = next_cid w"
  "next_gid (after_px_finalize x h w) = next_gid w"
  "finalized (comps (after_px_finalize x h w) c) = finalized (comps w c)"
  "ps (comps (after_px_finalize x h w) c) = ps (comps w c)"
  "proxies (after_px_finalize x h w) = (proxies w)(x := (proxies w x)\<lparr>px_promises := [], px_subscriptions := []\<rparr>)"
  using static_D[OF sub_all_static, of h "pairs (px_subscriptions (proxies w x))"
          "relay_all h (pairs (px_promises (proxies w x))) w"]
        static_D[OF relay_all_static, of h "pairs (px_promises (proxies w x))" w]
  by (simp_all add: after_px_finalize_def)

lemma after_px_finalize_subs:
  assumes "\<not> finalized (comps w (handle_cid h))"
  shows "set (lookup_set (subscriptions (comps (after_px_finalize x h w) (handle_cid h))) k) =
         set (lookup_set (subscriptions (comps w (handle_cid h))) k)
           \<union> {f. (k, f) \<in> set (pairs (px_subscriptions (proxies w x)))}"
proof -
  let ?w1 = "relay_all h (pairs (px_promises (proxies w x))) w"
  have 1: "\<not> finalized (comps ?w1 (handle_cid h))"
    using assms static_D(8)[OF relay_all_static] by simp
  have 2: "subs_of ?w1 = subs_of w" by (rule relay_all_subs)
  show ?thesis
    using sub_all_lookup[OF 1, of "pairs (px_subscriptions (proxies w x))" k] 2
    by (simp add: after_px_finalize_def subs_of_def)
qed

lemma after_px_finalize_wf:
  assumes "wf_trigmap (subscriptions (comps w c))"
  shows "wf_trigmap (subscriptions (comps (after_px_finalize x h w) c))"
proof -
  let ?w1 = "relay_all h (pairs (px_promises (proxies w x))) w"
  have "subs_of ?w1 = subs_of w" by (rule relay_all_subs)
  then have "wf_trigmap (subs_of ?w1 c)" using assms by (simp add: subs_of_def)
  from sub_all_wf[OF this] show ?thesis
    by (simp add: after_px_finalize_def subs_of_def)
qed

lemma count_list_pos_mem: "f \<in> set s \<Longrightarrow> 0 < count_list s f"
  by (induction s) auto

lemma Called_in_new_events:
  "f \<in> set (lookup_set (subscriptions (comps w c)) k) \<Longrightarrow>
   Called f a \<in> set (new_events w (after_trigger c k a w))"
  using after_trigger_count[of w c k a f] count_list_pos_mem[of f]
  by (metis count_list_0_iff less_numeral_extra(3))

lemma example_placeholder_proxy:
  "proxies example_placeholder 0 = \<lparr>px_promises = [], px_subscriptions = [(''m'', [7])]\<rparr>"
  by (simp add: example_placeholder_def px_sub_def init_world_def new_proxy_def
        px_triggerSubscribe_eq lookup_set_def set_add_def)

lemma example_placeholder_comps: "comps example_placeholder = (\<lambda>_. new_component)"
  by (simp add: example_placeholder_def px_sub_def init_world_def)

lemma finalizeTriggers_open:
  assumes "\<not> finalized (comps w c)" and "\<not> finalized (comps w (handle_cid h))"
      and "handle_cid h \<noteq> c"
  shows "finalizeTriggers c h w = (Inr (), after_finalizeTriggers c h w)"
proof -
  let ?w0 = "upd_comp c (\<lambda>t. t\<lparr>finalized := True\<rparr>) w"
  let ?w1 = "relay_all h (pairs (promises (comps w c))) ?w0"
  have "\<not> finalized (comps ?w0 (handle_cid h))"
    using assms by simp
  then have "\<not> finalized (comps ?w1 (handle_cid h))"
    using static_D(8)[OF relay_all_static] by simp
  then show ?thesis
    using assms(1)
    by (simp add: finalizeTriggers_def Let_def forward_promises_eq register_all_open
          after_finalizeTriggers_def)
qed





lemma own_Some: "own t n = Some oc \<longleftrightarrow> n \<noteq> ''__proto__'' \<and> t n = Some oc"
  by (simp add: own_def)

lemma own_None: "own t n = None \<longleftrightarrow> n = ''__proto__'' \<or> t n = None"
  by (simp add: own_def)

lemma own_not_shadowed:
  "\<not> shadowed t \<Longrightarrow> own t n = Some oc \<Longrightarrow> n \<noteq> ''hasOwnProperty''"
  by (auto simp: shadowed_def own_def split: if_splits)

lemma shadowed_update:
  "shadowed (t(n \<mapsto> oc)) \<longleftrightarrow> n = ''hasOwnProperty'' \<or> shadowed t"
  by (simp add: shadowed_def)

lemma ps_set_real:
  "\<not> shadowed (ps (comps w c)) \<Longrightarrow> own (ps (comps w c)) n = Some (Real h0) \<Longrightarrow>
   ps_set c n v w =
     (case finalizeTriggers c v w of
        (Inl e, w1) \<Rightarrow> (Inl e, w1)
      | (Inr u, w1) \<Rightarrow> (Inr (), upd_comp c (\<lambda>t. t\<lparr>ps := (ps t)(n \<mapsto> Real v)\<rparr>) w1))"
  by (simp add: ps_set_def Let_def)

lemma ps_set_real_seals:
  assumes "\<not> shadowed (ps (comps w c))" and "own (ps (comps w c)) n = Some (Real h0)"
  shows "finalized (comps (snd (ps_set c n v w)) c)"
proof -
  obtain r w1 where e: "finalizeTriggers c v w = (r, w1)" by force
  have "finalized (comps w1 c)"
    using finalizeTriggers_seals[of c v w] by (simp add: e)
  then show ?thesis
    by (cases r) (simp_all add: ps_set_real[OF assms] e)
qed

lemma ps_set_real_sealed:
  "\<not> shadowed (ps (comps w c)) \<Longrightarrow> own (ps (comps w c)) n = Some (Real h0) \<Longrightarrow>
   finalized (comps w c) \<Longrightarrow> ps_set c n v w = (Inl AlreadyFinalized, w)"
  by (simp add: ps_set_real finalizeTriggers_sealed)



lemma example_world_comps:
  "comps example_world c =
     (if c = 0 then \<lparr>promises = [(''m'', [0])], subscriptions = [(''m'', [7])],
                      finalized = False, ps = Map.empty\<rparr>
      else new_component)"
  by (simp add: example_world_def init_world_def new_component_def triggerPromise_open
        comp_sub_open lookup_set_def set_add_def)

lemma example_parent_comps:
  "comps example_parent c =
     (if c = 0 then \<lparr>promises = [(''m'', [0])], subscriptions = [(''m'', [7])],
                      finalized = False, ps = [''a'' \<mapsto> Real (PSObj 1)]\<rparr>
      else new_component)"
  by (simp add: example_parent_def ps_set_def example_world_comps shadowed_def own_def)

lemma resolve_all_count:
  "\<exists>es. events (resolve_all s a w) = events w @ es
      \<and> count_list es (Resolved q a) = (if q \<in> set s \<and> pstates w q = Pending then 1 else 0)
      \<and> (\<forall>e \<in> set es. \<exists>p. e = Resolved p a)"
proof (induction s arbitrary: w)
  case Nil
  then show ?case by simp
next
  case (Cons p s)
  let ?w1 = "resolve p a w"
  from Cons[of ?w1] obtain es where
    es: "events (resolve_all s a ?w1) = events ?w1 @ es"
      "count_list es (Resolved q a) = (if q \<in> set s \<and> pstates ?w1 q = Pending then 1 else 0)"
      "\<forall>e \<in> set es. \<exists>p. e = Resolved p a"
    by blast
  let ?es = "(if pstates w p = Pending then [Resolved p a] else []) @ es"
  have 1: "events (resolve_all (p # s) a w) = events w @ ?es"
    using es(1) by (simp add: resolve_events)
  have 2: "count_list ?es (Resolved q a) = (if q \<in> set (p # s) \<and> pstates w q = Pending then 1 else 0)"
    using es(2) by (auto simp: resolve_pstates)
  have 3: "\<forall>e \<in> set ?es. \<exists>p. e = Resolved p a"
    using es(3) by auto
  from 1 2 3 show ?case by blast
qed

lemma after_trigger_count_Resolved:
  "count_list (new_events w (after_trigger c k a w)) (Resolved q a)
     = (if q \<in> set (lookup_set (promises (comps w c)) k) \<and> pstates w q = Pending then 1 else 0)"
proof -
  obtain es where es: "events (resolve_all (lookup_set (promises (comps w c)) k) a w) = events w @ es"
      "count_list es (Resolved q a)
         = (if q \<in> set (lookup_set (promises (comps w c)) k) \<and> pstates w q = Pending then 1 else 0)"
    using resolve_all_count by blast
  have "events (after_trigger c k a w)
      = events w @ (es @ map (\<lambda>f. Called f a) (lookup_set (subscriptions (comps w c)) k))"
    by (simp add: after_trigger_events es(1))
  then have "new_events w (after_trigger c k a w)
      = es @ map (\<lambda>f. Called f a) (lookup_set (subscriptions (comps w c)) k)"
    by (rule new_events_append)
  then show ?thesis
    using es(2) by (simp add: count_list_0_iff image_iff)
qed

lemma after_trigger_no_waiters:
  "lookup_set (promises (comps w c)) k = [] \<Longrightarrow>
   new_events w (after_trigger c k a w) = map (\<lambda>f. Called f a) (lookup_set (subscriptions (comps w c)) k)"
  by (rule new_events_append) (simp add: after_trigger_events)

lemma after_trigger_open: "finalized (comps (after_trigger c k a w) c') = finalized (comps w c')"
  by (simp add: after_trigger_comp)

lemma after_trigger_waiters:
  "lookup_set (promises (comps (after_trigger c k a w) c)) k = []"
  by (simp add: after_trigger_comp lookup_set_delete)

lemma wait_n_fst: "fst (wait_n n c k w) = [next_pid w ..< next_pid w + n]"
proof (induction n arbitrary: w)
  case 0
  then show ?case by simp
next
  case (Suc n)
  have 1: "fst (triggerPromise c k w) = next_pid w"
    by (cases "finalized (comps w c)") (simp_all add: triggerPromise_open triggerPromise_sealed)
  have 2: "next_pid (snd (triggerPromise c k w)) = Suc (next_pid w)"
    by (cases "finalized (comps w c)") (simp_all add: triggerPromise_open triggerPromise_sealed)
  show ?case
    using Suc[of "snd (triggerPromise c k w)"] 1 2
    by (simp add: case_prod_beta upt_rec)
qed

lemma wait_n_snd:
  "\<not> finalized (comps w c) \<Longrightarrow>
   \<not> finalized (comps (snd (wait_n n c k w)) c)
   \<and> (\<forall>p. pstates (snd (wait_n n c k w)) p =
          (if next_pid w \<le> p \<and> p < next_pid w + n then Pending else pstates w p))
   \<and> set (lookup_set (promises (comps (snd (wait_n n c k w)) c)) k)
       = set (lookup_set (promises (comps w c)) k) \<union> {next_pid w ..< next_pid w + n}"
proof (induction n arbitrary: w)
  case 0
  then show ?case by auto
next
  case (Suc n)
  let ?w1 = "snd (triggerPromise c k w)"
  have w1: "?w1 = upd_comp c (\<lambda>t. t\<lparr>promises := AList.update k (set_add (lookup_set (promises t) k) (next_pid w)) (promises t)\<rparr>)
        (w\<lparr>next_pid := Suc (next_pid w), pstates := (pstates w)(next_pid w := Pending)\<rparr>)"
    using Suc.prems by (simp add: triggerPromise_open)
  have o: "\<not> finalized (comps ?w1 c)" using Suc.prems by (simp add: w1)
  have n: "next_pid ?w1 = Suc (next_pid w)" by (simp add: w1)
  have l: "lookup_set (promises (comps ?w1 c)) k = set_add (lookup_set (promises (comps w c)) k) (next_pid w)"
    by (simp add: w1 lookup_set_update)
  have p: "pstates ?w1 = (pstates w)(next_pid w := Pending)" by (simp add: w1)
  have e: "snd (wait_n (Suc n) c k w) = snd (wait_n n c k ?w1)"
    by (simp add: case_prod_beta)
  from Suc.IH[OF o] show ?case
    unfolding e n l p by auto
qed

lemma elem_simps [simp]:
  "elem [] i = LUndefined"
  "elem (x # xs) 0 = x"
  "elem (x # xs) (Suc i) = elem xs i"
  by (simp_all add: elem_def)

lemma is_string_simps [simp]:
  "is_string (LStr s) = True"
  "is_string LUndefined = False"
  "is_string (LPs c) = False"
  "is_string (LGlobal g) = False"
  "is_string (LPlain ob) = False"
  by (simp_all add: is_string_def)

lemma the_string_LStr [simp]: "the_string (LStr s) = s"
  by (simp add: the_string_def)

lemma link_malformed:
  "is_string (elem p 0) \<Longrightarrow> is_string (elem p 1) \<Longrightarrow>
   link c p w = (Inl (TypeError ''ID cannot be a string.''), w)"
  "\<not> is_string (elem p 0) \<Longrightarrow> \<not> is_string (elem p 1) \<Longrightarrow>
   link c p w = (Inl (TypeError ''ID must be a string.''), w)"
  by (simp_all add: link_def Let_def)

subsection \<open>Placeholders outside the registries\<close>

lemma unslotted_slotpart: "slotpart w' = slotpart w \<Longrightarrow> unslotted x w' = unslotted x w"
  by (simp add: slotpart_def unslotted_def)

lemma static_slotpart:
  assumes "static w' = static w"
  shows "slotpart w' = slotpart w"
proof -
  have "ps_of w' = ps_of w"
    using static_D(9)[OF assms] by (simp add: ps_of_def fun_eq_iff)
  then show ?thesis
    using static_D(2,3,5)[OF assms] by (simp add: slotpart_def)
qed

lemma resolve_slotpart: "slotpart (resolve p v w) = slotpart w"
  by (simp add: slotpart_def ps_of_def fun_eq_iff)

lemma after_trigger_slotpart: "slotpart (after_trigger c k a w) = slotpart w"
  by (auto simp: slotpart_def ps_of_def fun_eq_iff after_trigger_comp after_trigger_static)


lemma comp_unsub_open:
  "\<not> finalized (comps w c) \<Longrightarrow>
   comp_unsub c k f w =
     (Inr (), upd_comp c (\<lambda>t. t\<lparr>subscriptions :=
        (if set_delete (lookup_set (subscriptions t) k) f = [] then AList.delete k (subscriptions t)
         else AList.update k (set_delete (lookup_set (subscriptions t) k) f) (subscriptions t))\<rparr>) w)"
  by (simp add: comp_unsub_def triggerUnsubscribe_open upd_comp_def)

lemma comp_unsub_static: "static (snd (comp_unsub c k f w)) = static w"
  by (cases "finalized (comps w c)")
     (auto simp: comp_unsub_sealed comp_unsub_open static_def fun_eq_iff)

lemma comp_unsub_promise_part: "promise_part (snd (comp_unsub c k f w)) = promise_part w"
  by (cases "finalized (comps w c)")
     (auto simp: comp_unsub_sealed comp_unsub_open promise_part_def waits_of_def fun_eq_iff)


lemma register_all_snd:
  "snd (register_all h m w) =
     (if finalized (comps w (handle_cid h)) then w else sub_all h (pairs m) w)"
  by (simp add: register_all_open register_all_sealed)

lemma finalizeTriggers_snd:
  "snd (finalizeTriggers c h w) =
     (if finalized (comps w c) then w
      else let w1 = relay_all h (pairs (promises (comps w c))) (upd_comp c (\<lambda>t. t\<lparr>finalized := True\<rparr>) w);
               w2 = snd (register_all h (subscriptions (comps w c)) w1)
           in if fst (register_all h (subscriptions (comps w c)) w1) = Inr ()
              then upd_comp c (\<lambda>t. t\<lparr>promises := [], subscriptions := []\<rparr>) w2 else w2)"
proof (cases "finalized (comps w c)")
  case True
  then show ?thesis by (simp add: finalizeTriggers_sealed)
next
  case False
  obtain r w2 where e: "register_all h (subscriptions (comps w c))
      (relay_all h (pairs (promises (comps w c))) (upd_comp c (\<lambda>t. t\<lparr>finalized := True\<rparr>) w)) = (r, w2)"
    by force
  show ?thesis
    using False by (cases r) (simp_all add: finalizeTriggers_def Let_def forward_promises_eq e)
qed

lemma px_finalize_snd:
  "snd (px_finalize x h w) =
     (let w1 = relay_all h (pairs (px_promises (proxies w x))) w;
          w2 = snd (register_all h (px_subscriptions (proxies w x)) w1)
      in if fst (register_all h (px_subscriptions (proxies w x)) w1) = Inr ()
         then upd_proxy x (\<lambda>p. p\<lparr>px_promises := [], px_subscriptions := []\<rparr>) w2 else w2)"
proof -
  obtain r w2 where e: "register_all h (px_subscriptions (proxies w x))
      (relay_all h (pairs (px_promises (proxies w x))) w) = (r, w2)"
    by force
  show ?thesis
    by (cases r) (simp_all add: px_finalize_def Let_def forward_promises_eq e)
qed

lemma finalizeTriggers_slotpart: "slotpart (snd (finalizeTriggers c h w)) = slotpart w"
proof -
  let ?w0 = "upd_comp c (\<lambda>t. t\<lparr>finalized := True\<rparr>) w"
  let ?w1 = "relay_all h (pairs (promises (comps w c))) ?w0"
  let ?w2 = "snd (register_all h (subscriptions (comps w c)) ?w1)"
  have 0: "slotpart ?w0 = slotpart w" by (auto simp: slotpart_def ps_of_def fun_eq_iff)
  have 1: "slotpart ?w1 = slotpart ?w0" by (intro static_slotpart relay_all_static)
  have 2: "slotpart ?w2 = slotpart ?w1" by (intro static_slotpart register_all_static)
  have 3: "slotpart (upd_comp c (\<lambda>t. t\<lparr>promises := [], subscriptions := []\<rparr>) ?w2) = slotpart ?w2"
    by (auto simp: slotpart_def ps_of_def fun_eq_iff)
  show ?thesis
    unfolding finalizeTriggers_snd Let_def using 0 1 2 3 by simp
qed

lemma px_finalize_slotpart: "slotpart (snd (px_finalize x h w)) = slotpart w"
proof -
  let ?w1 = "relay_all h (pairs (px_promises (proxies w x))) w"
  let ?w2 = "snd (register_all h (px_subscriptions (proxies w x)) ?w1)"
  have 1: "slotpart ?w1 = slotpart w" by (intro static_slotpart relay_all_static)
  have 2: "slotpart ?w2 = slotpart ?w1" by (intro static_slotpart register_all_static)
  have 3: "slotpart (upd_proxy x (\<lambda>p. p\<lparr>px_promises := [], px_subscriptions := []\<rparr>) ?w2) = slotpart ?w2"
    by (auto simp: slotpart_def ps_of_def fun_eq_iff)
  show ?thesis
    unfolding px_finalize_snd Let_def using 1 2 3 by simp
qed

lemma keeps_refl: "keeps x w w"
  by (simp add: keeps_def)

lemma keeps_trans: "keeps x w w1 \<Longrightarrow> keeps x w1 w2 \<Longrightarrow> keeps x w w2"
  by (simp add: keeps_def)


lemma keepsI:
  "slotpart w' = slotpart w \<Longrightarrow> proxies w' x = proxies w x \<Longrightarrow> keeps x w w'"
  using unslotted_slotpart[of w' w x] by (simp add: keeps_def)

lemma keeps_static: "static w' = static w \<Longrightarrow> keeps x w w'"
  using static_D(1)[of w' w] static_slotpart[of w' w] by (intro keepsI) simp_all

lemma finalizeTriggers_proxies: "proxies (snd (finalizeTriggers c h w)) = proxies w"
proof -
  let ?w0 = "upd_comp c (\<lambda>t. t\<lparr>finalized := True\<rparr>) w"
  let ?w1 = "relay_all h (pairs (promises (comps w c))) ?w0"
  let ?w2 = "snd (register_all h (subscriptions (comps w c)) ?w1)"
  have 1: "proxies ?w1 = proxies ?w0" by (intro static_D(1) relay_all_static)
  have 2: "proxies ?w2 = proxies ?w1" by (intro static_D(1) register_all_static)
  show ?thesis
    unfolding finalizeTriggers_snd Let_def using 1 2 by simp
qed

lemma px_finalize_proxies:
  "x \<noteq> y \<Longrightarrow> proxies (snd (px_finalize y h w)) x = proxies w x"
proof -
  let ?w1 = "relay_all h (pairs (px_promises (proxies w y))) w"
  let ?w2 = "snd (register_all h (px_subscriptions (proxies w y)) ?w1)"
  assume a: "x \<noteq> y"
  have 1: "proxies ?w1 = proxies w" by (intro static_D(1) relay_all_static)
  have 2: "proxies ?w2 = proxies ?w1" by (intro static_D(1) register_all_static)
  show ?thesis
    unfolding px_finalize_snd Let_def using 1 2 a by simp
qed

lemma keeps_finalizeTriggers: "keeps x w (snd (finalizeTriggers c h w))"
  by (intro keepsI) (simp_all add: finalizeTriggers_slotpart finalizeTriggers_proxies)

lemma keeps_px_finalize: "x \<noteq> y \<Longrightarrow> keeps x w (snd (px_finalize y h w))"
  by (intro keepsI) (simp_all add: px_finalize_slotpart px_finalize_proxies)

lemma keeps_upd_proxy: "x \<noteq> y \<Longrightarrow> keeps x w (upd_proxy y f w)"
  by (simp add: keeps_def unslotted_def ps_of_def)

lemma keeps_store_ps:
  "keeps x w (upd_comp c (\<lambda>t. t\<lparr>ps := (ps t)(n \<mapsto> Real v)\<rparr>) w)"
  by (simp add: keeps_def unslotted_def ps_of_def)

lemma keeps_store_global:
  "keeps x w (w\<lparr>globals := (globals w)(g := (globals w g)(n \<mapsto> Real v))\<rparr>)"
  by (simp add: keeps_def unslotted_def ps_of_def)

lemma keeps_store_plain:
  "keeps x w (w\<lparr>plains := (plains w)(ob := (plains w ob)(n \<mapsto> Real v))\<rparr>)"
  by (simp add: keeps_def unslotted_def ps_of_def)

lemma keeps_ps_set: "keeps x w (snd (ps_set c n v w))"
proof (cases "shadowed (ps (comps w c))")
  case True
  then show ?thesis by (simp add: ps_set_def keeps_refl)
next
  case ns: False
  show ?thesis
  proof (cases "own (ps (comps w c)) n")
    case None
    then show ?thesis using ns by (simp add: ps_set_def keeps_store_ps)
  next
    case (Some oc)
    show ?thesis
    proof (cases oc)
      case (Placeholder y)
      show ?thesis
      proof (cases "x = y")
        case True
        have "ps_of w c n = Some (Placeholder x)"
          using Some Placeholder True by (simp add: ps_of_def own_Some)
        then have "\<not> unslotted x w"
          unfolding unslotted_def by blast
        then show ?thesis by (simp add: keeps_def)
      next
        case False
        obtain r w1 where e: "px_finalize y v w = (r, w1)" by force
        have 1: "keeps x w w1" using keeps_px_finalize[OF False, where w = w and h = v] by (simp add: e)
        have 2: "keeps x w1 (upd_comp c (\<lambda>t. t\<lparr>ps := (ps t)(n \<mapsto> Real v)\<rparr>) w1)"
          by (rule keeps_store_ps)
        show ?thesis
          using 1 keeps_trans[OF 1 2] ns by (cases r) (simp_all add: ps_set_def Some Placeholder e)
      qed
    next
      case (Real h0)
      obtain r w1 where e: "finalizeTriggers c v w = (r, w1)" by force
      have 1: "keeps x w w1" using keeps_finalizeTriggers[of x w c v] by (simp add: e)
      have 2: "keeps x w1 (upd_comp c (\<lambda>t. t\<lparr>ps := (ps t)(n \<mapsto> Real v)\<rparr>) w1)"
        by (rule keeps_store_ps)
      show ?thesis
        using 1 keeps_trans[OF 1 2] ns by (cases r) (simp_all add: ps_set_def Some Real e)
    qed
  qed
qed

lemma keeps_global_set: "keeps x w (snd (global_set g n v w))"
proof (cases "shadowed (globals w g)")
  case True
  then show ?thesis by (simp add: global_set_def keeps_refl)
next
  case ns: False
  show ?thesis
  proof (cases "own (globals w g) n")
    case None
    then show ?thesis using ns by (simp add: global_set_def keeps_store_global)
  next
    case (Some oc)
    show ?thesis
    proof (cases oc)
      case (Placeholder y)
      show ?thesis
      proof (cases "x = y")
        case True
        have "globals w g n = Some (Placeholder x)"
          using Some Placeholder True by (simp add: own_Some)
        then have "\<not> unslotted x w"
          unfolding unslotted_def by blast
        then show ?thesis by (simp add: keeps_def)
      next
        case False
        obtain r w1 where e: "px_finalize y v w = (r, w1)" by force
        have 1: "keeps x w w1" using keeps_px_finalize[OF False, where w = w and h = v] by (simp add: e)
        have 2: "keeps x w1 (w1\<lparr>globals := (globals w1)(g := (globals w1 g)(n \<mapsto> Real v))\<rparr>)"
          by (rule keeps_store_global)
        show ?thesis
          using 1 keeps_trans[OF 1 2] ns by (cases r) (simp_all add: global_set_def Some Placeholder e)
      qed
    next
      case (Real h0)
      show ?thesis
      proof (cases h0)
        case (PSObj c')
        then show ?thesis using ns by (simp add: global_set_def Some Real keeps_refl)
      next
        case (PSComp c')
        obtain r w1 where e: "finalizeTriggers c' v w = (r, w1)" by force
        have 1: "keeps x w w1" using keeps_finalizeTriggers[of x w c' v] by (simp add: e)
        have 2: "keeps x w1 (w1\<lparr>globals := (globals w1)(g := (globals w1 g)(n \<mapsto> Real v))\<rparr>)"
          by (rule keeps_store_global)
        show ?thesis
          using 1 keeps_trans[OF 1 2] ns by (cases r) (simp_all add: global_set_def Some Real PSComp e)
      qed
    qed
  qed
qed

lemma ps_get_snd:
  "snd (ps_get c n w) =
     (if shadowed (ps (comps w c)) \<or> own (ps (comps w c)) n \<noteq> None then w
      else upd_comp c (\<lambda>t. t\<lparr>ps := (ps t)(n \<mapsto> Placeholder (next_xid w))\<rparr>)
             (w\<lparr>next_xid := Suc (next_xid w), proxies := (proxies w)(next_xid w := new_proxy)\<rparr>))"
  by (auto simp: ps_get_def Let_def split: option.splits)

lemma global_get_snd:
  "snd (global_get g n w) =
     (if shadowed (globals w g) \<or> own (globals w g) n \<noteq> None then w
      else w\<lparr>next_xid := Suc (next_xid w), proxies := (proxies w)(next_xid w := new_proxy),
             globals := (globals w)(g := (globals w g)(n \<mapsto> Placeholder (next_xid w)))\<rparr>)"
  by (auto simp: global_get_def Let_def split: option.splits)

lemma keeps_ps_get: "keeps x w (snd (ps_get c n w))"
proof (cases "shadowed (ps (comps w c)) \<or> own (ps (comps w c)) n \<noteq> None")
  case False
  show ?thesis
    unfolding keeps_def
  proof
    assume u: "unslotted x w"
    then have ne: "x \<noteq> next_xid w" by (simp add: unslotted_def)
    show "unslotted x (snd (ps_get c n w)) \<and> proxies (snd (ps_get c n w)) x = proxies w x"
      using u ne False by (simp add: ps_get_snd unslotted_def ps_of_def less_Suc_eq)
  qed
next
  case True
  then show ?thesis by (simp add: ps_get_snd keeps_refl)
qed

lemma keeps_global_get: "keeps x w (snd (global_get g n w))"
proof (cases "shadowed (globals w g) \<or> own (globals w g) n \<noteq> None")
  case False
  show ?thesis
    unfolding keeps_def
  proof
    assume u: "unslotted x w"
    then have ne: "x \<noteq> next_xid w" by (simp add: unslotted_def)
    show "unslotted x (snd (global_get g n w)) \<and> proxies (snd (global_get g n w)) x = proxies w x"
      using u ne False by (simp add: global_get_snd unslotted_def ps_of_def less_Suc_eq)
  qed
next
  case True
  then show ?thesis by (simp add: global_get_snd keeps_refl)
qed

lemma keeps_prop_set: "keeps x w (snd (prop_set t n v w))"
  by (cases t) (simp_all add: keeps_refl keeps_ps_set keeps_global_set keeps_store_plain)

lemma keeps_register_globals: "keeps x w (snd (register_globals gs n v w))"
proof (induction gs arbitrary: w)
  case Nil
  then show ?case by (simp add: keeps_refl)
next
  case (Cons g gs)
  obtain r w1 where e: "prop_set g n v w = (r, w1)" by force
  have 1: "keeps x w w1" using keeps_prop_set[of x w g n v] by (simp add: e)
  show ?case
    using 1 keeps_trans[OF 1 Cons[of w1]] by (cases r) (simp_all add: e)
qed

lemma link_cases:
  "link c p w =
     (if is_string (elem p 0) then
        (if is_string (elem p (Suc 0)) then (Inl (TypeError ''ID cannot be a string.''), w)
         else register_globals (elem p (Suc 0) # drop 2 p) (the_string (elem p 0)) (PSObj c) w)
      else
        (if \<not> is_string (elem p (Suc 0)) then (Inl (TypeError ''ID must be a string.''), w)
         else
           (case prop_set (elem p 0) (the_string (elem p (Suc 0))) (PSObj c) w of
              (Inl e, w') \<Rightarrow> (Inl e, w')
            | (Inr u, w') \<Rightarrow> register_globals (drop 2 p) (the_string (elem p (Suc 0))) (PSObj c) w')))"
  by (simp add: link_def Let_def)

lemma keeps_link: "keeps x w (snd (link c p w))"
proof (cases "is_string (elem p 0)")
  case True
  show ?thesis
  proof (cases "is_string (elem p (Suc 0))")
    case True
    with \<open>is_string (elem p 0)\<close> have "snd (link c p w) = w"
      by (simp only: link_cases if_True snd_conv)
    then show ?thesis by (simp only: keeps_refl)
  next
    case False
    with \<open>is_string (elem p 0)\<close> have "snd (link c p w) =
        snd (register_globals (elem p (Suc 0) # drop 2 p) (the_string (elem p 0)) (PSObj c) w)"
      by (simp only: link_cases if_True if_False)
    then show ?thesis by (simp only: keeps_register_globals)
  qed
next
  case False
  show ?thesis
  proof (cases "is_string (elem p (Suc 0))")
    case False
    with \<open>\<not> is_string (elem p 0)\<close> have "snd (link c p w) = w"
      by (simp only: link_cases if_True if_False not_False_eq_True snd_conv)
    then show ?thesis by (simp only: keeps_refl)
  next
    case True
    obtain r w1 where e: "prop_set (elem p 0) (the_string (elem p (Suc 0))) (PSObj c) w = (r, w1)"
      by force
    have 1: "keeps x w w1"
      using keeps_prop_set[of x w "elem p 0" "the_string (elem p (Suc 0))" "PSObj c"]
      unfolding e by simp
    have 2: "keeps x w1 (snd (register_globals (drop 2 p) (the_string (elem p (Suc 0))) (PSObj c) w1))"
      by (rule keeps_register_globals)
    have "snd (link c p w) =
        (case r of Inl e \<Rightarrow> w1
         | Inr u \<Rightarrow> snd (register_globals (drop 2 p) (the_string (elem p (Suc 0))) (PSObj c) w1))"
      using True \<open>\<not> is_string (elem p 0)\<close>
      by (cases r) (simp_all only: link_cases e if_True if_False not_True_eq_False
            prod.case sum.case snd_conv)
    then show ?thesis
      using 1 keeps_trans[OF 1 2] by (cases r) simp_all
  qed
qed

lemma keeps_constructor: "keeps x w (snd (constructor props w))"
proof -
  let ?w0 = "w\<lparr>next_cid := Suc (next_cid w), comps := (comps w)(next_cid w := new_component)\<rparr>"
  have 0: "keeps x w ?w0"
    by (simp add: keeps_def unslotted_def ps_of_def new_component_def)
  show ?thesis
  proof (cases props)
    case None
    then show ?thesis using 0 by (simp add: constructor_def Let_def)
  next
    case (Some p)
    obtain r w1 where e: "link (next_cid w) p ?w0 = (r, w1)" by force
    have "keeps x ?w0 w1" using keeps_link[of x ?w0 "next_cid w" p] by (simp add: e)
    with 0 have "keeps x w w1" by (rule keeps_trans)
    then show ?thesis
      by (cases r) (simp_all add: constructor_def Let_def Some e)
  qed
qed

lemma keeps_occ_sub: "oc \<noteq> Placeholder x \<Longrightarrow> keeps x w (snd (occ_sub oc k f w))"
proof (cases oc)
  case (Placeholder y)
  assume "oc \<noteq> Placeholder x"
  then have "x \<noteq> y" using Placeholder by simp
  then show ?thesis by (simp add: Placeholder px_sub_def keeps_upd_proxy)
next
  case (Real h)
  then show ?thesis by (simp add: keeps_static[OF handle_sub_static])
qed

lemma keeps_occ_unsub: "oc \<noteq> Placeholder x \<Longrightarrow> keeps x w (snd (occ_unsub oc k f w))"
proof (cases oc)
  case (Placeholder y)
  assume "oc \<noteq> Placeholder x"
  then have "x \<noteq> y" using Placeholder by simp
  then show ?thesis by (simp add: Placeholder px_unsub_def keeps_upd_proxy)
next
  case (Real h)
  then show ?thesis by (simp add: keeps_static[OF comp_unsub_static])
qed

lemma px_async_snd:
  "snd (px_async y k w) =
     upd_proxy y (\<lambda>p. p\<lparr>px_promises := AList.update k (set_add (lookup_set (px_promises p) k) (next_pid w)) (px_promises p)\<rparr>)
       (w\<lparr>next_pid := Suc (next_pid w), pstates := (pstates w)(next_pid w := Pending)\<rparr>)"
  by (simp add: px_async_def Let_def case_prod_beta px_getTriggerSet_snd update_ensure upd_proxy_def)

lemma keeps_occ_async: "oc \<noteq> Placeholder x \<Longrightarrow> keeps x w (snd (occ_async oc k w))"
proof (cases oc)
  case (Placeholder y)
  assume "oc \<noteq> Placeholder x"
  then have xy: "x \<noteq> y" using Placeholder by simp
  let ?w0 = "w\<lparr>next_pid := Suc (next_pid w), pstates := (pstates w)(next_pid w := Pending)\<rparr>"
  have "keeps x w ?w0" by (simp add: keeps_def unslotted_def ps_of_def)
  then show ?thesis
    unfolding Placeholder occ_async.simps px_async_snd
    by (rule keeps_trans) (rule keeps_upd_proxy[OF xy])
next
  case (Real h)
  then show ?thesis by (simp add: handle_async_def keeps_static[OF triggerPromise_static])
qed

lemma keeps_trigger: "keeps x w (snd (trigger c k a w))"
proof (cases "finalized (comps w c)")
  case True
  then show ?thesis by (simp add: trigger_sealed keeps_refl)
next
  case False
  have "keeps x w (after_trigger c k a w)"
    by (intro keepsI) (simp_all add: after_trigger_slotpart after_trigger_static)
  then show ?thesis using False by (simp add: trigger_open)
qed

lemma keeps_run_microtask: "keeps x w (run_microtask w)"
proof (cases "jobs w")
  case Nil
  then show ?thesis by (simp add: run_microtask_def keeps_refl)
next
  case (Cons j js)
  obtain r v where j: "j = (r, v)" by (cases j)
  have 1: "keeps x w (w\<lparr>jobs := js\<rparr>)"
    by (simp add: keeps_def unslotted_def ps_of_def)
  have 2: "keeps x (w\<lparr>jobs := js\<rparr>) (resolve r v (w\<lparr>jobs := js\<rparr>))"
    by (rule keepsI) (simp_all add: resolve_slotpart)
  show ?thesis
    using keeps_trans[OF 1 2] by (simp add: run_microtask_def Cons j)
qed

lemma keeps_GlobalPubSub: "keeps x w (snd (GlobalPubSub w))"
  by (simp add: GlobalPubSub_def Let_def keeps_def unslotted_def ps_of_def)

lemma keeps_exec: "\<not> direct x op \<Longrightarrow> keeps x w (exec op w)"
proof (cases op)
  case (Sub oc k f)
  assume "\<not> direct x op"
  then show ?thesis using Sub by (simp add: keeps_occ_sub)
next
  case (Unsub oc k f)
  assume "\<not> direct x op"
  then show ?thesis using Unsub by (simp add: keeps_occ_unsub)
next
  case (Wait oc k)
  assume "\<not> direct x op"
  then show ?thesis using Wait by (simp add: keeps_occ_async)
next
  case (Fire c k a)
  then show ?thesis by (simp add: keeps_trigger)
next
  case (Finalize c h)
  then show ?thesis by (simp add: keeps_finalizeTriggers)
next
  case (PxFinalize y h)
  assume "\<not> direct x op"
  then show ?thesis using PxFinalize by (simp add: keeps_px_finalize)
next
  case (Get r n)
  then show ?thesis by (cases r) (simp_all add: keeps_ps_get keeps_global_get)
next
  case (Put r n v)
  then show ?thesis by (cases r) (simp_all add: keeps_ps_set keeps_global_set)
next
  case (New props)
  then show ?thesis by (simp add: keeps_constructor)
next
  case NewGlobal
  then show ?thesis by (simp add: keeps_GlobalPubSub)
next
  case Microtask
  then show ?thesis by (simp add: keeps_run_microtask)
qed


subsection \<open>Where the resolver of a promise can be\<close>




lemma pid_step_shrink:
  assumes "next_pid w' = next_pid w" and "pstates w' = pstates w"
      and "\<And>c. members (promises (comps w' c)) \<subseteq> members (promises (comps w c))"
      and "\<And>x. members (px_promises (proxies w' x)) \<subseteq> members (px_promises (proxies w x))"
      and "snd ` set (reactions w') \<subseteq> snd ` set (reactions w)"
      and "fst ` set (jobs w') \<subseteq> fst ` set (jobs w)"
  shows "pid_step q X w w'"
  unfolding pid_step_def pid_absent_def
  using assms by (simp add: subset_iff) blast

lemma pid_step_promise_part:
  assumes "promise_part w' = promise_part w" and "proxies w' = proxies w"
  shows "pid_step q X w w'"
  using promise_part_D[OF assms(1)] assms(2)
  by (intro pid_step_shrink) simp_all


lemma members_iff: "q \<in> members m \<longleftrightarrow> (\<exists>k s. (k, s) \<in> set m \<and> q \<in> set s)"
  by (auto simp: members_def set_pairs image_iff)



lemma members_Cons [simp]: "members ((k, s) # m) = set s \<union> members m"
  by (auto simp: members_def image_Un image_iff)
















lemma pid_step_sub_all: "pid_step q X w (sub_all h kfs w)"
  by (intro pid_step_promise_part sub_all_promise_part static_D(1) sub_all_static)








subsection \<open>Where a callback can be subscribed\<close>




















subsection \<open>Registry writes and construction\<close>

lemma closed_D:
  assumes "step_closed X R"
  shows "R w w"
    and "R w1 w2 \<Longrightarrow> R w2 w3 \<Longrightarrow> R w1 w3"
    and "y \<notin> X \<Longrightarrow> R w (snd (px_finalize y h w))"
    and "R w (snd (finalizeTriggers c h w))"
    and "R w (upd_comp c (\<lambda>t. t\<lparr>ps := (ps t)(n \<mapsto> Real v)\<rparr>) w)"
    and "R w (w\<lparr>globals := (globals w)(g := (globals w g)(n \<mapsto> Real v))\<rparr>)"
    and "R w (w\<lparr>plains := (plains w)(ob := (plains w ob)(n \<mapsto> Real v))\<rparr>)"
    and "R w (w\<lparr>next_cid := Suc (next_cid w), comps := (comps w)(next_cid w := new_component)\<rparr>)"
proof -
  note a = assms[unfolded step_closed_def]
  note c1 = a[THEN conjunct1, rule_format]
  note a2 = a[THEN conjunct2]
  note c2 = a2[THEN conjunct1, rule_format]
  note a3 = a2[THEN conjunct2]
  note c3 = a3[THEN conjunct1, rule_format]
  note a4 = a3[THEN conjunct2]
  note c4 = a4[THEN conjunct1, rule_format]
  note a5 = a4[THEN conjunct2]
  note c5 = a5[THEN conjunct1, rule_format]
  note a6 = a5[THEN conjunct2]
  note c6 = a6[THEN conjunct1, rule_format]
  note a7 = a6[THEN conjunct2]
  note c7 = a7[THEN conjunct1, rule_format]
  note c8 = a7[THEN conjunct2, rule_format]
  show "R w w" by (rule c1)
  show "R w1 w2 \<Longrightarrow> R w2 w3 \<Longrightarrow> R w1 w3" by (rule c2)
  show "y \<notin> X \<Longrightarrow> R w (snd (px_finalize y h w))" by (rule c3)
  show "R w (snd (finalizeTriggers c h w))" by (rule c4)
  show "R w (upd_comp c (\<lambda>t. t\<lparr>ps := (ps t)(n \<mapsto> Real v)\<rparr>) w)" by (rule c5)
  show "R w (w\<lparr>globals := (globals w)(g := (globals w g)(n \<mapsto> Real v))\<rparr>)" by (rule c6)
  show "R w (w\<lparr>plains := (plains w)(ob := (plains w ob)(n \<mapsto> Real v))\<rparr>)" by (rule c7)
  show "R w (w\<lparr>next_cid := Suc (next_cid w), comps := (comps w)(next_cid w := new_component)\<rparr>)"
    by (rule c8)
qed

lemma all_unslotted_keeps:
  "(\<And>x. keeps x w w') \<Longrightarrow> all_unslotted X w \<Longrightarrow> all_unslotted X w'"
  unfolding all_unslotted_def keeps_def by blast

lemma all_unslotted_ps: "all_unslotted X w \<Longrightarrow> ps (comps w c) n = Some (Placeholder y) \<Longrightarrow> y \<notin> X"
  unfolding all_unslotted_def unslotted_def ps_of_def by blast

lemma all_unslotted_global: "all_unslotted X w \<Longrightarrow> globals w g n = Some (Placeholder y) \<Longrightarrow> y \<notin> X"
  unfolding all_unslotted_def unslotted_def by blast

lemma closed_ps_set:
  assumes R: "step_closed X R" and u: "all_unslotted X w"
  shows "R w (snd (ps_set c n v w))"
proof (cases "shadowed (ps (comps w c))")
  case True
  then show ?thesis by (simp add: ps_set_def closed_D(1)[OF R])
next
  case ns: False
  show ?thesis
  proof (cases "own (ps (comps w c)) n")
    case None
    then show ?thesis using ns by (simp add: ps_set_def closed_D(5)[OF R])
  next
    case (Some oc)
    show ?thesis
    proof (cases oc)
      case (Placeholder y)
      have "ps (comps w c) n = Some (Placeholder y)"
        using Some Placeholder by (simp add: own_Some)
      then have y: "y \<notin> X" using u by (simp add: all_unslotted_ps)
      obtain r w1 where e: "px_finalize y v w = (r, w1)" by force
      have 1: "R w w1" using closed_D(3)[OF R y, of w v] by (simp add: e)
      have 2: "R w1 (upd_comp c (\<lambda>t. t\<lparr>ps := (ps t)(n \<mapsto> Real v)\<rparr>) w1)"
        by (rule closed_D(5)[OF R])
      show ?thesis
        using 1 closed_D(2)[OF R 1 2] ns by (cases r) (simp_all add: ps_set_def Some Placeholder e)
    next
      case (Real h0)
      obtain r w1 where e: "finalizeTriggers c v w = (r, w1)" by force
      have 1: "R w w1" using closed_D(4)[OF R, of w c v] by (simp add: e)
      have 2: "R w1 (upd_comp c (\<lambda>t. t\<lparr>ps := (ps t)(n \<mapsto> Real v)\<rparr>) w1)"
        by (rule closed_D(5)[OF R])
      show ?thesis
        using 1 closed_D(2)[OF R 1 2] ns by (cases r) (simp_all add: ps_set_def Some Real e)
    qed
  qed
qed

lemma closed_global_set:
  assumes R: "step_closed X R" and u: "all_unslotted X w"
  shows "R w (snd (global_set g n v w))"
proof (cases "shadowed (globals w g)")
  case True
  then show ?thesis by (simp add: global_set_def closed_D(1)[OF R])
next
  case ns: False
  show ?thesis
  proof (cases "own (globals w g) n")
    case None
    then show ?thesis using ns by (simp add: global_set_def closed_D(6)[OF R])
  next
    case (Some oc)
    show ?thesis
    proof (cases oc)
      case (Placeholder y)
      have "globals w g n = Some (Placeholder y)"
        using Some Placeholder by (simp add: own_Some)
      then have y: "y \<notin> X" using u by (simp add: all_unslotted_global)
      obtain r w1 where e: "px_finalize y v w = (r, w1)" by force
      have 1: "R w w1" using closed_D(3)[OF R y, of w v] by (simp add: e)
      have 2: "R w1 (w1\<lparr>globals := (globals w1)(g := (globals w1 g)(n \<mapsto> Real v))\<rparr>)"
        by (rule closed_D(6)[OF R])
      show ?thesis
        using 1 closed_D(2)[OF R 1 2] ns by (cases r) (simp_all add: global_set_def Some Placeholder e)
    next
      case (Real h0)
      show ?thesis
      proof (cases h0)
        case (PSObj c')
        then show ?thesis using ns by (simp add: global_set_def Some Real closed_D(1)[OF R])
      next
        case (PSComp c')
        obtain r w1 where e: "finalizeTriggers c' v w = (r, w1)" by force
        have 1: "R w w1" using closed_D(4)[OF R, of w c' v] by (simp add: e)
        have 2: "R w1 (w1\<lparr>globals := (globals w1)(g := (globals w1 g)(n \<mapsto> Real v))\<rparr>)"
          by (rule closed_D(6)[OF R])
        show ?thesis
          using 1 closed_D(2)[OF R 1 2] ns by (cases r) (simp_all add: global_set_def Some Real PSComp e)
      qed
    qed
  qed
qed

lemma closed_prop_set:
  assumes R: "step_closed X R" and u: "all_unslotted X w"
  shows "R w (snd (prop_set t n v w))"
  by (cases t)
     (simp_all add: closed_D(1)[OF R] closed_D(7)[OF R] closed_ps_set[OF R u]
        closed_global_set[OF R u])

lemma closed_register_globals:
  assumes R: "step_closed X R"
  shows "all_unslotted X w \<Longrightarrow> R w (snd (register_globals gs n v w))"
proof (induction gs arbitrary: w)
  case Nil
  then show ?case by (simp add: closed_D(1)[OF R])
next
  case (Cons g gs)
  obtain r w1 where e: "prop_set g n v w = (r, w1)" by force
  have 1: "R w w1" using closed_prop_set[OF R Cons.prems, of g n v] by (simp add: e)
  have "\<And>x. keeps x w w1" using keeps_prop_set[of _ w g n v] by (simp add: e)
  then have u1: "all_unslotted X w1" using Cons.prems by (rule all_unslotted_keeps)
  show ?case
    using 1 closed_D(2)[OF R 1 Cons.IH[OF u1]] by (cases r) (simp_all add: e)
qed

lemma closed_link:
  assumes R: "step_closed X R" and u: "all_unslotted X w"
  shows "R w (snd (link c p w))"
proof (cases "is_string (elem p 0)")
  case True
  show ?thesis
  proof (cases "is_string (elem p (Suc 0))")
    case True
    with \<open>is_string (elem p 0)\<close> have "snd (link c p w) = w"
      by (simp only: link_cases if_True snd_conv)
    then show ?thesis by (simp only: closed_D(1)[OF R])
  next
    case False
    with \<open>is_string (elem p 0)\<close> have "snd (link c p w) =
        snd (register_globals (elem p (Suc 0) # drop 2 p) (the_string (elem p 0)) (PSObj c) w)"
      by (simp only: link_cases if_True if_False)
    then show ?thesis by (simp only: closed_register_globals[OF R u])
  qed
next
  case False
  show ?thesis
  proof (cases "is_string (elem p (Suc 0))")
    case False
    with \<open>\<not> is_string (elem p 0)\<close> have "snd (link c p w) = w"
      by (simp only: link_cases if_True if_False not_False_eq_True snd_conv)
    then show ?thesis by (simp only: closed_D(1)[OF R])
  next
    case True
    obtain r w1 where e: "prop_set (elem p 0) (the_string (elem p (Suc 0))) (PSObj c) w = (r, w1)"
      by force
    have 1: "R w w1"
      using closed_prop_set[OF R u, of "elem p 0" "the_string (elem p (Suc 0))" "PSObj c"]
      unfolding e by simp
    have "\<And>x. keeps x w w1"
      using keeps_prop_set[of _ w "elem p 0" "the_string (elem p (Suc 0))" "PSObj c"]
      unfolding e by simp
    then have u1: "all_unslotted X w1" using u by (rule all_unslotted_keeps)
    have 2: "R w1 (snd (register_globals (drop 2 p) (the_string (elem p (Suc 0))) (PSObj c) w1))"
      using R u1 by (rule closed_register_globals)
    have "snd (link c p w) =
        (case r of Inl e \<Rightarrow> w1
         | Inr u \<Rightarrow> snd (register_globals (drop 2 p) (the_string (elem p (Suc 0))) (PSObj c) w1))"
      using True \<open>\<not> is_string (elem p 0)\<close>
      by (cases r) (simp_all only: link_cases e if_True if_False not_True_eq_False
            prod.case sum.case snd_conv)
    then show ?thesis
      using 1 closed_D(2)[OF R 1 2] by (cases r) simp_all
  qed
qed

lemma closed_constructor:
  assumes R: "step_closed X R" and u: "all_unslotted X w"
  shows "R w (snd (constructor props w))"
proof -
  let ?w0 = "w\<lparr>next_cid := Suc (next_cid w), comps := (comps w)(next_cid w := new_component)\<rparr>"
  have 0: "R w ?w0" by (rule closed_D(8)[OF R])
  have "\<And>x. keeps x w ?w0"
    by (simp add: keeps_def unslotted_def ps_of_def new_component_def)
  then have u0: "all_unslotted X ?w0" using u by (rule all_unslotted_keeps)
  show ?thesis
  proof (cases props)
    case None
    then show ?thesis using 0 by (simp add: constructor_def Let_def)
  next
    case (Some p)
    obtain r w1 where e: "link (next_cid w) p ?w0 = (r, w1)" by force
    have "R ?w0 w1" using closed_link[OF R u0, of "next_cid w" p] by (simp add: e)
    with 0 have "R w w1" by (rule closed_D(2)[OF R])
    then show ?thesis
      by (cases r) (simp_all add: constructor_def Let_def Some e)
  qed
qed

lemma closed_reg_set:
  assumes R: "step_closed X R" and u: "all_unslotted X w"
  shows "R w (snd (reg_set r n v w))"
  by (cases r) (simp_all add: closed_ps_set[OF R u] closed_global_set[OF R u])










subsection \<open>Sealed components and settled promises\<close>

lemma mono_step_refl: "mono_step w w"
  by (simp add: mono_step_def)

lemma mono_step_trans: "mono_step w w1 \<Longrightarrow> mono_step w1 w2 \<Longrightarrow> mono_step w w2"
  unfolding mono_step_def
  by (metis le_trans less_le_trans)

lemma mono_stepI:
  assumes "next_pid w \<le> next_pid w'" and "next_cid w \<le> next_cid w'"
      and "\<And>c. c < next_cid w \<Longrightarrow> finalized (comps w c) \<Longrightarrow> finalized (comps w' c)"
      and "\<And>q. q < next_pid w \<Longrightarrow> pstates w q \<noteq> Pending \<Longrightarrow> pstates w' q = pstates w q"
  shows "mono_step w w'"
  using assms unfolding mono_step_def by blast

lemma mono_step_static:
  assumes "static w' = static w" and "next_pid w \<le> next_pid w'"
      and "\<And>q. q < next_pid w \<Longrightarrow> pstates w' q = pstates w q"
  shows "mono_step w w'"
  using static_D(6,8)[OF assms(1)] assms(2,3) by (intro mono_stepI) simp_all

lemma mono_step_triggerPromise: "mono_step w (snd (triggerPromise c k w))"
  by (rule mono_step_static[OF triggerPromise_static])
     (cases "finalized (comps w c)"; simp add: triggerPromise_open triggerPromise_sealed)+

lemma mono_step_forward_one: "mono_step w (forward_one h k r w)"
  by (rule mono_step_static[OF forward_one_static])
     (cases "finalized (comps w (handle_cid h))"; simp add: forward_one_open forward_one_sealed)+

lemma mono_step_relay_all: "mono_step w (relay_all h krs w)"
proof (induction krs arbitrary: w)
  case Nil
  then show ?case by (simp add: mono_step_refl)
next
  case (Cons kr krs)
  obtain k r where kr: "kr = (k, r)" by (cases kr)
  show ?case
    using mono_step_trans[OF mono_step_forward_one Cons[of "forward_one h k r w"]]
    by (simp add: kr)
qed

lemma mono_step_sub_all: "mono_step w (sub_all h kfs w)"
  using promise_part_D(2,5)[OF sub_all_promise_part, of h kfs w]
  by (intro mono_step_static sub_all_static) simp_all

lemma mono_step_register_all: "mono_step w (snd (register_all h m w))"
  using promise_part_D(2,5)[OF register_all_promise_part, of h m w]
  by (intro mono_step_static register_all_static) simp_all

lemma mono_step_resolve: "mono_step w (resolve p v w)"
  by (rule mono_stepI) (auto simp: resolve_pstates)

lemma mono_step_resolve_all: "mono_step w (resolve_all s a w)"
  by (rule mono_stepI) (auto simp: resolve_all_pstates)

lemma mono_step_trigger: "mono_step w (snd (trigger c k a w))"
proof (cases "finalized (comps w c)")
  case True
  then show ?thesis by (simp add: trigger_sealed mono_step_refl)
next
  case False
  have "mono_step w (after_trigger c k a w)"
    by (rule mono_stepI) (auto simp: after_trigger_static after_trigger_comp after_trigger_pstates)
  then show ?thesis using False by (simp add: trigger_open)
qed

lemma mono_step_run_microtask: "mono_step w (run_microtask w)"
proof (cases "jobs w")
  case Nil
  then show ?thesis by (simp add: run_microtask_def mono_step_refl)
next
  case (Cons j js)
  obtain r v where j: "j = (r, v)" by (cases j)
  have 1: "mono_step w (w\<lparr>jobs := js\<rparr>)" by (rule mono_stepI) simp_all
  show ?thesis
    using mono_step_trans[OF 1 mono_step_resolve] by (simp add: run_microtask_def Cons j)
qed

lemma mono_step_finalizeTriggers: "mono_step w (snd (finalizeTriggers c h w))"
proof -
  let ?w0 = "upd_comp c (\<lambda>t. t\<lparr>finalized := True\<rparr>) w"
  let ?w1 = "relay_all h (pairs (promises (comps w c))) ?w0"
  let ?w2 = "snd (register_all h (subscriptions (comps w c)) ?w1)"
  let ?w3 = "upd_comp c (\<lambda>t. t\<lparr>promises := [], subscriptions := []\<rparr>) ?w2"
  have 0: "mono_step w ?w0" by (rule mono_stepI) auto
  have 1: "mono_step ?w0 ?w1" by (rule mono_step_relay_all)
  have 2: "mono_step ?w1 ?w2" by (rule mono_step_register_all)
  have 3: "mono_step ?w2 ?w3" by (rule mono_stepI) auto
  have 02: "mono_step w ?w2" using 0 1 2 by (blast intro: mono_step_trans)
  have 03: "mono_step w ?w3" using 02 3 by (rule mono_step_trans)
  show ?thesis
    unfolding finalizeTriggers_snd Let_def using 02 03 by (simp add: mono_step_refl)
qed

lemma mono_step_px_finalize: "mono_step w (snd (px_finalize y h w))"
proof -
  let ?w1 = "relay_all h (pairs (px_promises (proxies w y))) w"
  let ?w2 = "snd (register_all h (px_subscriptions (proxies w y)) ?w1)"
  let ?w3 = "upd_proxy y (\<lambda>p. p\<lparr>px_promises := [], px_subscriptions := []\<rparr>) ?w2"
  have 1: "mono_step w ?w1" by (rule mono_step_relay_all)
  have 2: "mono_step ?w1 ?w2" by (rule mono_step_register_all)
  have 3: "mono_step ?w2 ?w3" by (rule mono_stepI) auto
  have 02: "mono_step w ?w2" using 1 2 by (rule mono_step_trans)
  have 03: "mono_step w ?w3" using 02 3 by (rule mono_step_trans)
  show ?thesis
    unfolding px_finalize_snd Let_def using 02 03 by simp
qed

lemma mono_step_closed: "step_closed X mono_step"
  unfolding step_closed_def
proof (intro conjI allI impI)
  fix w show "mono_step w w" by (rule mono_step_refl)
next
  fix w1 w2 w3 assume "mono_step w1 w2" "mono_step w2 w3"
  then show "mono_step w1 w3" by (rule mono_step_trans)
next
  fix w y h show "mono_step w (snd (px_finalize y h w))" by (rule mono_step_px_finalize)
next
  fix w c h show "mono_step w (snd (finalizeTriggers c h w))" by (rule mono_step_finalizeTriggers)
next
  fix w c n v show "mono_step w (upd_comp c (\<lambda>t. t\<lparr>ps := (ps t)(n \<mapsto> Real v)\<rparr>) w)"
    by (rule mono_stepI) auto
next
  fix w g n v
  show "mono_step w (w\<lparr>globals := (globals w)(g := (globals w g)(n \<mapsto> Real v))\<rparr>)"
    by (rule mono_stepI) auto
next
  fix w ob n v
  show "mono_step w (w\<lparr>plains := (plains w)(ob := (plains w ob)(n \<mapsto> Real v))\<rparr>)"
    by (rule mono_stepI) auto
next
  fix w
  show "mono_step w (w\<lparr>next_cid := Suc (next_cid w), comps := (comps w)(next_cid w := new_component)\<rparr>)"
    by (rule mono_stepI) auto
qed

lemma all_unslotted_empty [simp]: "all_unslotted {} w"
  by (simp add: all_unslotted_def)

lemma mono_step_exec: "mono_step w (exec op w)"
proof (cases op)
  case (Sub oc k f)
  show ?thesis
  proof (cases oc)
    case (Placeholder y)
    show ?thesis
      unfolding Sub Placeholder exec.simps occ_sub.simps
      by (rule mono_stepI) (auto simp: px_sub_def)
  next
    case (Real h)
    show ?thesis
      unfolding Sub Real exec.simps occ_sub.simps
      using promise_part_D(2,5)[OF handle_sub_promise_part, of h k f w]
      by (intro mono_step_static handle_sub_static) simp_all
  qed
next
  case (Unsub oc k f)
  show ?thesis
  proof (cases oc)
    case (Placeholder y)
    show ?thesis
      unfolding Unsub Placeholder exec.simps occ_unsub.simps
      by (rule mono_stepI) (auto simp: px_unsub_def)
  next
    case (Real h)
    show ?thesis
      unfolding Unsub Real exec.simps occ_unsub.simps
      using promise_part_D(2,5)[OF comp_unsub_promise_part, of "handle_cid h" k f w]
      by (intro mono_step_static comp_unsub_static) simp_all
  qed
next
  case (Wait oc k)
  show ?thesis
  proof (cases oc)
    case (Placeholder y)
    show ?thesis
      unfolding Wait Placeholder exec.simps occ_async.simps
      by (rule mono_stepI) (auto simp: px_async_snd)
  next
    case (Real h)
    show ?thesis
      unfolding Wait Real exec.simps occ_async.simps handle_async_def
      by (rule mono_step_triggerPromise)
  qed
next
  case (Fire c k a)
  show ?thesis unfolding Fire exec.simps by (rule mono_step_trigger)
next
  case (Finalize c h)
  show ?thesis unfolding Finalize exec.simps by (rule mono_step_finalizeTriggers)
next
  case (PxFinalize y h)
  show ?thesis unfolding PxFinalize exec.simps by (rule mono_step_px_finalize)
next
  case (Get r n)
  show ?thesis
  proof (cases r)
    case (Scoped c)
    show ?thesis
      unfolding Get Scoped exec.simps reg_get.simps
      by (cases "shadowed (ps (comps w c)) \<or> own (ps (comps w c)) n \<noteq> None")
         (auto simp: ps_get_snd intro!: mono_stepI)
  next
    case (Global g)
    show ?thesis
      unfolding Get Global exec.simps reg_get.simps
      by (cases "shadowed (globals w g) \<or> own (globals w g) n \<noteq> None")
         (auto simp: global_get_snd intro!: mono_stepI)
  qed
next
  case (Put r n v)
  show ?thesis unfolding Put exec.simps
    by (rule closed_reg_set[OF mono_step_closed[of "{}"]]) simp
next
  case (New props)
  show ?thesis unfolding New exec.simps
    by (rule closed_constructor[OF mono_step_closed[of "{}"]]) simp
next
  case NewGlobal
  show ?thesis unfolding NewGlobal exec.simps
    by (rule mono_stepI) (auto simp: GlobalPubSub_def Let_def)
next
  case Microtask
  show ?thesis unfolding Microtask exec.simps by (rule mono_step_run_microtask)
qed

lemma run_Nil [simp]: "run [] w = w"
  by (simp add: run_def)

lemma run_Cons [simp]: "run (op # os) w = run os (exec op w)"
  by (simp add: run_def)

lemma run_append [simp]: "run (os @ os') w = run os' (run os w)"
  by (simp add: run_def)

lemma mono_step_run: "mono_step w (run os w)"
proof (induction os arbitrary: w)
  case Nil
  then show ?case by (simp add: mono_step_refl)
next
  case (Cons op os)
  show ?case
    using mono_step_trans[OF mono_step_exec Cons[of "exec op w"]] by simp
qed

subsection \<open>Invariants of the reachable states\<close>



























lemma untouched_run:
  assumes "unslotted x w" and "\<forall>op \<in> set os. \<not> direct x op"
  shows "proxies (run os w) x = proxies w x"
  using assms
proof (induction os arbitrary: w)
  case Nil
  then show ?case by simp
next
  case (Cons op os)
  have k: "keeps x w (exec op w)" using Cons.prems(2) by (intro keeps_exec) simp
  then have u: "unslotted x (exec op w)" and p: "proxies (exec op w) x = proxies w x"
    using Cons.prems(1) by (simp_all add: keeps_def)
  show ?case using Cons.IH[OF u] Cons.prems(2) p by simp
qed

lemma all_unslotted_single [simp]: "all_unslotted {x} w = unslotted x w"
  by (simp add: all_unslotted_def)









lemma px_unsub_empty:
  assumes "px_subscriptions (proxies w x) = []"
  shows "px_subscriptions (proxies (snd (px_unsub x k f w)) x) = []"
  using assms
  by (simp add: px_unsub_def upd_proxy_def px_triggerUnsubscribe_def px_getTriggerSet_def
        set_delete_def Let_def)






text \<open>
  In the example program the callback 7, buffered before the registry write, has moved to
  the component and is called by the later trigger.
\<close>

lemma example_forwarded_called:
  "called 7 (run example_late (snd (reg_set (Global 0) ''child'' (PSObj 0) (run example_history init_world)))) = {[1]}"
  by (simp add: example_late_def example_history_def constructor_def px_sub_def global_get_def GlobalPubSub_def
        init_world_def Let_def upd_proxy_def new_component_def global_set_def px_finalize_def forward_promises_def
        handle_sub_def comp_sub_def triggerSubscribe_def getTriggerSet_def px_triggerSubscribe_def px_getTriggerSet_def
        trigger_def call_all_def resolve_all_def called_def new_proxy_def upd_comp_def set_add_def lookup_set_def
        shadowed_def own_def)

lemma sealed_run:
  assumes "finalized (comps w c)" and "c < next_cid w"
  shows "finalized (comps (run os w) c) \<and> c < next_cid (run os w)"
  using mono_step_run[of w os] assms unfolding mono_step_def by (meson less_le_trans)

lemma settled_run:
  assumes "pstates w q \<noteq> Pending" and "q < next_pid w"
  shows "pstates (run os w) q = pstates w q"
  using mono_step_run[of w os] assms unfolding mono_step_def by blast


subsection \<open>The representation of maps and sets\<close>

lemma wf_step_refl: "wf_step w w"
  by (simp add: wf_step_def)

lemma wf_step_trans: "wf_step w w1 \<Longrightarrow> wf_step w1 w2 \<Longrightarrow> wf_step w w2"
  by (simp add: wf_step_def)

lemma wf_stepI:
  assumes "\<And>c. wf_trigmap (promises (comps w c)) \<Longrightarrow> wf_trigmap (subscriptions (comps w c))
              \<Longrightarrow> wf_trigmap (promises (comps w' c)) \<and> wf_trigmap (subscriptions (comps w' c))"
      and "\<And>x. wf_trigmap (px_promises (proxies w x)) \<Longrightarrow> wf_trigmap (px_subscriptions (proxies w x))
              \<Longrightarrow> wf_trigmap (px_promises (proxies w' x)) \<and> wf_trigmap (px_subscriptions (proxies w' x))"
  shows "wf_step w w'"
  using assms unfolding wf_step_def maps_wf_def by blast

lemma wf_add: "wf_trigmap m \<Longrightarrow> wf_trigmap (AList.update k (set_add (lookup_set m k) v) m)"
  by (intro wf_trigmap_update distinct_set_add wf_trigmap_lookup)

lemma wf_remove:
  "wf_trigmap m \<Longrightarrow> wf_trigmap (AList.update k (set_delete (lookup_set m k) v) m)"
  by (intro wf_trigmap_update distinct_set_delete wf_trigmap_lookup)

lemma wf_step_comp_sub: "wf_step w (snd (comp_sub c k f w))"
proof (cases "finalized (comps w c)")
  case True
  then show ?thesis by (simp add: comp_sub_sealed wf_step_refl)
next
  case False
  show ?thesis unfolding comp_sub_open[OF False] snd_conv
    by (rule wf_stepI) (auto simp: wf_add)
qed

lemma wf_step_comp_unsub: "wf_step w (snd (comp_unsub c k f w))"
proof (cases "finalized (comps w c)")
  case True
  then show ?thesis by (simp add: comp_unsub_sealed wf_step_refl)
next
  case False
  show ?thesis unfolding comp_unsub_open[OF False] snd_conv
    by (rule wf_stepI) (auto simp: wf_remove wf_trigmap_delete)
qed

lemma wf_step_triggerPromise: "wf_step w (snd (triggerPromise c k w))"
proof (cases "finalized (comps w c)")
  case True
  show ?thesis unfolding triggerPromise_sealed[OF True] snd_conv
    by (rule wf_stepI) auto
next
  case False
  show ?thesis unfolding triggerPromise_open[OF False] snd_conv
    by (rule wf_stepI) (auto simp: wf_add)
qed

lemma wf_step_forward_one: "wf_step w (forward_one h k r w)"
proof (cases "finalized (comps w (handle_cid h))")
  case True
  show ?thesis unfolding forward_one_sealed[OF True]
    by (rule wf_stepI) auto
next
  case False
  show ?thesis unfolding forward_one_open[OF False]
    by (rule wf_stepI) (auto simp: wf_add)
qed

lemma wf_step_relay_all: "wf_step w (relay_all h krs w)"
proof (induction krs arbitrary: w)
  case Nil
  then show ?case by (simp add: relay_all_def wf_step_refl)
next
  case (Cons kr krs)
  obtain k r where kr: "kr = (k, r)" by (cases kr)
  show ?case
    using wf_step_trans[OF wf_step_forward_one Cons[of "forward_one h k r w"]]
    by (simp add: kr relay_all_def)
qed

lemma wf_step_sub_all: "wf_step w (sub_all h kfs w)"
proof (induction kfs arbitrary: w)
  case Nil
  then show ?case by (simp add: sub_all_def wf_step_refl)
next
  case (Cons kf kfs)
  obtain k f where kf: "kf = (k, f)" by (cases kf)
  have 1: "wf_step w (snd (handle_sub h k f w))"
    unfolding handle_sub_def by (rule wf_step_comp_sub)
  show ?case
    using wf_step_trans[OF 1 Cons[of "snd (handle_sub h k f w)"]]
    by (simp add: kf sub_all_def)
qed

lemma wf_step_register_all: "wf_step w (snd (register_all h m w))"
  by (simp add: register_all_snd wf_step_refl wf_step_sub_all)

lemma wf_step_resolve: "wf_step w (resolve p v w)"
  by (rule wf_stepI) (simp_all add: resolve_def Let_def split: pstate.splits)

lemma wf_step_trigger: "wf_step w (snd (trigger c k a w))"
proof (cases "finalized (comps w c)")
  case True
  then show ?thesis by (simp add: trigger_sealed wf_step_refl)
next
  case False
  show ?thesis unfolding trigger_open[OF False] snd_conv
    by (rule wf_stepI)
       (auto simp: after_trigger_comp after_trigger_static wf_trigmap_delete wf_trigmap_ensure)
qed

lemma wf_step_run_microtask: "wf_step w (run_microtask w)"
proof (cases "jobs w")
  case Nil
  then show ?thesis by (simp add: run_microtask_def wf_step_refl)
next
  case (Cons j js)
  obtain r v where j: "j = (r, v)" by (cases j)
  have 1: "wf_step w (w\<lparr>jobs := js\<rparr>)" by (rule wf_stepI) simp_all
  show ?thesis
    using wf_step_trans[OF 1 wf_step_resolve] by (simp add: run_microtask_def Cons j)
qed

lemma wf_step_finalizeTriggers: "wf_step w (snd (finalizeTriggers c h w))"
proof -
  let ?w0 = "upd_comp c (\<lambda>t. t\<lparr>finalized := True\<rparr>) w"
  let ?w1 = "relay_all h (pairs (promises (comps w c))) ?w0"
  let ?w2 = "snd (register_all h (subscriptions (comps w c)) ?w1)"
  let ?w3 = "upd_comp c (\<lambda>t. t\<lparr>promises := [], subscriptions := []\<rparr>) ?w2"
  have 0: "wf_step w ?w0" by (rule wf_stepI) auto
  have 1: "wf_step ?w0 ?w1" by (rule wf_step_relay_all)
  have 2: "wf_step ?w1 ?w2" by (rule wf_step_register_all)
  have 3: "wf_step ?w2 ?w3" by (rule wf_stepI) auto
  have 02: "wf_step w ?w2" using 0 1 2 by (blast intro: wf_step_trans)
  have 03: "wf_step w ?w3" using 02 3 by (rule wf_step_trans)
  show ?thesis
    unfolding finalizeTriggers_snd Let_def using 02 03 by (simp add: wf_step_refl)
qed

lemma wf_step_px_finalize: "wf_step w (snd (px_finalize y h w))"
proof -
  let ?w1 = "relay_all h (pairs (px_promises (proxies w y))) w"
  let ?w2 = "snd (register_all h (px_subscriptions (proxies w y)) ?w1)"
  let ?w3 = "upd_proxy y (\<lambda>p. p\<lparr>px_promises := [], px_subscriptions := []\<rparr>) ?w2"
  have 1: "wf_step w ?w1" by (rule wf_step_relay_all)
  have 2: "wf_step ?w1 ?w2" by (rule wf_step_register_all)
  have 3: "wf_step ?w2 ?w3" by (rule wf_stepI) auto
  have 02: "wf_step w ?w2" using 1 2 by (rule wf_step_trans)
  have 03: "wf_step w ?w3" using 02 3 by (rule wf_step_trans)
  show ?thesis
    unfolding px_finalize_snd Let_def using 02 03 by simp
qed

lemma wf_step_closed: "step_closed X wf_step"
  unfolding step_closed_def
proof (intro conjI allI impI)
  fix w show "wf_step w w" by (rule wf_step_refl)
next
  fix w1 w2 w3 assume "wf_step w1 w2" "wf_step w2 w3"
  then show "wf_step w1 w3" by (rule wf_step_trans)
next
  fix w y h show "wf_step w (snd (px_finalize y h w))" by (rule wf_step_px_finalize)
next
  fix w c h show "wf_step w (snd (finalizeTriggers c h w))" by (rule wf_step_finalizeTriggers)
next
  fix w c n v show "wf_step w (upd_comp c (\<lambda>t. t\<lparr>ps := (ps t)(n \<mapsto> Real v)\<rparr>) w)"
    by (rule wf_stepI) auto
next
  fix w g n v
  show "wf_step w (w\<lparr>globals := (globals w)(g := (globals w g)(n \<mapsto> Real v))\<rparr>)"
    by (rule wf_stepI) auto
next
  fix w ob n v
  show "wf_step w (w\<lparr>plains := (plains w)(ob := (plains w ob)(n \<mapsto> Real v))\<rparr>)"
    by (rule wf_stepI) auto
next
  fix w
  show "wf_step w (w\<lparr>next_cid := Suc (next_cid w), comps := (comps w)(next_cid w := new_component)\<rparr>)"
    by (rule wf_stepI) (auto simp: new_component_def)
qed

lemma wf_step_exec: "wf_step w (exec op w)"
proof (cases op)
  case (Sub oc k f)
  show ?thesis
  proof (cases oc)
    case (Placeholder y)
    show ?thesis
      unfolding Sub Placeholder exec.simps occ_sub.simps
      by (rule wf_stepI)
         (auto simp: px_sub_def px_triggerSubscribe_def case_prod_beta px_getTriggerSet_snd
            update_ensure wf_add)
  next
    case (Real h)
    show ?thesis
      unfolding Sub Real exec.simps occ_sub.simps handle_sub_def by (rule wf_step_comp_sub)
  qed
next
  case (Unsub oc k f)
  show ?thesis
  proof (cases oc)
    case (Placeholder y)
    show ?thesis
      unfolding Unsub Placeholder exec.simps occ_unsub.simps
      by (rule wf_stepI)
         (auto simp: px_unsub_def px_triggerUnsubscribe_def case_prod_beta px_getTriggerSet_snd
            update_ensure Let_def wf_remove wf_trigmap_delete wf_trigmap_update)
  next
    case (Real h)
    show ?thesis
      unfolding Unsub Real exec.simps occ_unsub.simps by (rule wf_step_comp_unsub)
  qed
next
  case (Wait oc k)
  show ?thesis
  proof (cases oc)
    case (Placeholder y)
    show ?thesis
      unfolding Wait Placeholder exec.simps occ_async.simps
      by (rule wf_stepI) (auto simp: px_async_snd wf_add)
  next
    case (Real h)
    show ?thesis
      unfolding Wait Real exec.simps occ_async.simps handle_async_def
      by (rule wf_step_triggerPromise)
  qed
next
  case (Fire c k a)
  show ?thesis unfolding Fire exec.simps by (rule wf_step_trigger)
next
  case (Finalize c h)
  show ?thesis unfolding Finalize exec.simps by (rule wf_step_finalizeTriggers)
next
  case (PxFinalize y h)
  show ?thesis unfolding PxFinalize exec.simps by (rule wf_step_px_finalize)
next
  case (Get r n)
  show ?thesis
  proof (cases r)
    case (Scoped c)
    show ?thesis
      unfolding Get Scoped exec.simps reg_get.simps
      by (cases "shadowed (ps (comps w c)) \<or> own (ps (comps w c)) n \<noteq> None")
         (auto simp: ps_get_snd new_proxy_def intro!: wf_stepI)
  next
    case (Global g)
    show ?thesis
      unfolding Get Global exec.simps reg_get.simps
      by (cases "shadowed (globals w g) \<or> own (globals w g) n \<noteq> None")
         (auto simp: global_get_snd new_proxy_def intro!: wf_stepI)
  qed
next
  case (Put r n v)
  show ?thesis unfolding Put exec.simps
    by (rule closed_reg_set[OF wf_step_closed[of "{}"]]) simp
next
  case (New props)
  show ?thesis unfolding New exec.simps
    by (rule closed_constructor[OF wf_step_closed[of "{}"]]) simp
next
  case NewGlobal
  show ?thesis unfolding NewGlobal exec.simps
    by (rule wf_stepI) (auto simp: GlobalPubSub_def Let_def)
next
  case Microtask
  show ?thesis unfolding Microtask exec.simps by (rule wf_step_run_microtask)
qed

lemma maps_wf_init: "maps_wf init_world"
  by (simp add: maps_wf_def init_world_def new_component_def new_proxy_def)

lemma maps_wf_run: "maps_wf w \<Longrightarrow> maps_wf (run os w)"
proof (induction os arbitrary: w)
  case Nil
  then show ?case by simp
next
  case (Cons op os)
  have "maps_wf (exec op w)" using wf_step_exec[of w op] Cons.prems by (simp add: wf_step_def)
  then show ?case using Cons.IH by simp
qed

text \<open>
  Every state the library reaches from the initial one satisfies the invariant, so the
  well-formedness that the theorems on triggers and forwarding assume of a map holds of
  every map a program can build.
\<close>

lemma maps_wf_reachable: "maps_wf (run os init_world)"
  by (rule maps_wf_run[OF maps_wf_init])

lemma maps_wf_D:
  assumes "maps_wf w"
  shows "wf_trigmap (promises (comps w c))" and "wf_trigmap (subscriptions (comps w c))"
    and "wf_trigmap (px_promises (proxies w x))" and "wf_trigmap (px_subscriptions (proxies w x))"
  using assms by (simp_all add: maps_wf_def)


subsection \<open>Registry writes on a placeholder or a handle\<close>

lemma entries_slotpart: "slotpart w' = slotpart w \<Longrightarrow> entries w' r = entries w r"
proof -
  assume "slotpart w' = slotpart w"
  then have p: "ps_of w' = ps_of w" and g: "globals w' = globals w"
    by (simp_all add: slotpart_def)
  have "\<And>c. ps (comps w' c) = ps (comps w c)"
    using fun_cong[OF p] by (simp add: ps_of_def)
  then show ?thesis using g by (cases r) simp_all
qed




lemma ps_set_ps:
  "ps (comps (snd (ps_set c n v w)) c) =
     (if fst (ps_set c n v w) = Inr () then (ps (comps w c))(n \<mapsto> Real v) else ps (comps w c))"
proof (cases "shadowed (ps (comps w c))")
  case True
  then show ?thesis by (simp add: ps_set_def)
next
  case ns: False
  show ?thesis
  proof (cases "own (ps (comps w c)) n")
    case None
    then show ?thesis using ns by (simp add: ps_set_def)
  next
    case (Some oc)
    show ?thesis
    proof (cases oc)
      case (Placeholder y)
      obtain r w1 where e: "px_finalize y v w = (r, w1)" by force
      have "entries w1 (Scoped c) = entries w (Scoped c)"
        using entries_slotpart[OF px_finalize_slotpart, of y v w "Scoped c"] by (simp add: e)
      then show ?thesis
        using ns by (cases r) (simp_all add: ps_set_def Some Placeholder e)
    next
      case (Real h0)
      obtain r w1 where e: "finalizeTriggers c v w = (r, w1)" by force
      have "entries w1 (Scoped c) = entries w (Scoped c)"
        using entries_slotpart[OF finalizeTriggers_slotpart, of c v w "Scoped c"] by (simp add: e)
      then show ?thesis
        using ns by (cases r) (simp_all add: ps_set_def Some Real e)
    qed
  qed
qed

lemma ps_set_not_shadowed:
  assumes "\<not> shadowed (ps (comps w c))" and "own (ps (comps w c)) n = Some oc"
  shows "\<not> shadowed (ps (comps (snd (ps_set c n v w)) c))"
  using assms own_not_shadowed[OF assms] by (simp add: ps_set_ps shadowed_update)


section \<open>The specified properties\<close>

text \<open>
  C4. On a registry that is not sealed, \<open>trigger c k a\<close> returns without error. It first
  resolves every pending waiter of the name \<open>k\<close>, each with the same \<open>a\<close>, and
  removes the waiter set of \<open>k\<close> (whether or not the name has subscribers); then it calls
  every subscriber of \<open>k\<close> with \<open>a\<close>, in insertion order. The trace grows by exactly
  these events in this order. The entries of every other name, every other component and
  every placeholder are unchanged, and with no waiter and no subscriber nothing is
  resolved or called.
\<close>

theorem fire_resolves_waiters_then_calls_subscribers:
  assumes "\<not> finalized (comps w c)" and "wf_trigmap (promises (comps w c))"
  shows "let ws = lookup_set (promises (comps w c)) k;
             fs = lookup_set (subscriptions (comps w c)) k;
             w' = snd (trigger c k a w)
         in fst (trigger c k a w) = Inr ()
          \<and> new_events w w' =
              map (\<lambda>p. Resolved p a) (filter (\<lambda>p. pstates w p = Pending) ws) @ map (\<lambda>f. Called f a) fs
          \<and> (\<forall>p \<in> set ws. pstates w p = Pending \<longrightarrow> pstates w' p = Fulfilled a)
          \<and> (\<forall>p. p \<notin> set ws \<longrightarrow> pstates w' p = pstates w p)
          \<and> map_of (promises (comps w' c)) k = None
          \<and> lookup_set (subscriptions (comps w' c)) k = fs
          \<and> (\<forall>k'. k' \<noteq> k \<longrightarrow>
                 map_of (promises (comps w' c)) k' = map_of (promises (comps w c)) k'
               \<and> map_of (subscriptions (comps w' c)) k' = map_of (subscriptions (comps w c)) k')
          \<and> (\<forall>c'. c' \<noteq> c \<longrightarrow> comps w' c' = comps w c')
          \<and> proxies w' = proxies w
          \<and> (ws = [] \<and> fs = [] \<longrightarrow> events w' = events w \<and> pstates w' = pstates w)"
proof -
  let ?ws = "lookup_set (promises (comps w c)) k"
  let ?fs = "lookup_set (subscriptions (comps w c)) k"
  let ?w' = "after_trigger c k a w"
  have t: "trigger c k a w = (Inr (), ?w')"
    using assms(1) by (rule trigger_open)
  have d: "distinct ?ws"
    using assms(2) by (rule wf_trigmap_lookup)
  have ev: "events ?w' = events w @
      (map (\<lambda>p. Resolved p a) (filter (\<lambda>p. pstates w p = Pending) ?ws) @ map (\<lambda>f. Called f a) ?fs)"
    by (simp add: after_trigger_events resolve_all_events[OF d])
  have 1: "new_events w ?w' =
      map (\<lambda>p. Resolved p a) (filter (\<lambda>p. pstates w p = Pending) ?ws) @ map (\<lambda>f. Called f a) ?fs"
    using ev by (rule new_events_append)
  have 2: "\<forall>p \<in> set ?ws. pstates w p = Pending \<longrightarrow> pstates ?w' p = Fulfilled a"
    by (simp add: after_trigger_pstates)
  have 3: "\<forall>p. p \<notin> set ?ws \<longrightarrow> pstates ?w' p = pstates w p"
    by (simp add: after_trigger_pstates)
  have 4: "map_of (promises (comps ?w' c)) k = None"
    by (simp add: after_trigger_comp delete_conv')
  have 5: "lookup_set (subscriptions (comps ?w' c)) k = ?fs"
    by (simp add: after_trigger_comp lookup_set_ensure)
  have 6: "\<forall>k'. k' \<noteq> k \<longrightarrow>
                 map_of (promises (comps ?w' c)) k' = map_of (promises (comps w c)) k'
               \<and> map_of (subscriptions (comps ?w' c)) k' = map_of (subscriptions (comps w c)) k'"
    by (simp add: after_trigger_comp map_of_ensure)
  have 7: "\<forall>c'. c' \<noteq> c \<longrightarrow> comps ?w' c' = comps w c'"
    by (simp add: after_trigger_comp)
  have 8: "proxies ?w' = proxies w"
    by (simp add: after_trigger_static)
  have 9: "?ws = [] \<and> ?fs = [] \<longrightarrow> events ?w' = events w \<and> pstates ?w' = pstates w"
    using ev by (auto simp: after_trigger_pstates fun_eq_iff)
  show ?thesis
    unfolding Let_def t fst_conv snd_conv
    using 1 2 3 4 5 6 7 8 9 by blast
qed

theorem fire_resolves_waiters_then_calls_subscribers_witness:
  "\<not> finalized (comps example_world 0) \<and> wf_trigmap (promises (comps example_world 0))
   \<and> new_events example_world (snd (trigger 0 ''m'' [1, 2] example_world))
       = [Resolved 0 [1, 2], Called 7 [1, 2]]
   \<and> pstates (snd (trigger 0 ''m'' [1, 2] example_world)) 0 = Fulfilled [1, 2]"
proof -
  have p: "pstates example_world 0 = Pending"
    by (simp add: example_world_def init_world_def new_component_def triggerPromise_open comp_sub_open)
  have wf: "wf_trigmap (promises (comps example_world 0))"
    by (simp add: example_world_promises wf_trigmap_def)
  show ?thesis
    using fire_resolves_waiters_then_calls_subscribers[OF example_world_open wf, of "''m''" "[1, 2]"] p
    by (simp add: Let_def example_world_open example_world_promises example_world_subscriptions
          wf_trigmap_def lookup_set_def)
qed

text \<open>
  C5. Running \<open>finalizeTriggers\<close> on a component leaves it sealed, whether the forwarding
  completed or raised. On a sealed component subscribe, unsubscribe, trigger and a second
  \<open>finalizeTriggers\<close> raise \<^verbatim>\<open>Error("Already finalized.")\<close> and leave the world as it
  was; a promise request raises the same error inside the promise executor, so the promise
  it returns is rejected with it, and the component is unchanged. A sealed component that
  has been constructed is still sealed after any sequence \<open>os\<close> of operations of the
  library, so this holds for every later operation.
\<close>

theorem sealed_handle_raises:
  "finalized (comps (snd (finalizeTriggers c h w)) c)
   \<and> (finalized (comps w c) \<longrightarrow>
        comp_sub c k f w = (Inl (Error ''Already finalized.''), w)
      \<and> comp_unsub c k f w = (Inl (Error ''Already finalized.''), w)
      \<and> trigger c k a w = (Inl (Error ''Already finalized.''), w)
      \<and> finalizeTriggers c h' w = (Inl (Error ''Already finalized.''), w)
      \<and> pstates (snd (triggerPromise c k w)) (fst (triggerPromise c k w))
            = Rejected (Error ''Already finalized.'')
      \<and> comps (snd (triggerPromise c k w)) = comps w
      \<and> (c < next_cid w \<longrightarrow> finalized (comps (run os w) c)))"
  using finalizeTriggers_seals[of c h w] sealed_run[of w c os]
  by (auto simp: comp_sub_sealed comp_unsub_sealed trigger_sealed finalizeTriggers_sealed
        triggerPromise_sealed AlreadyFinalized_def)

theorem sealed_handle_raises_witness:
  "finalized (comps (snd (finalizeTriggers 0 (PSObj 1) example_world)) 0)
   \<and> comp_sub 0 ''m'' 7 (snd (finalizeTriggers 0 (PSObj 1) example_world))
       = (Inl (Error ''Already finalized.''), snd (finalizeTriggers 0 (PSObj 1) example_world))
   \<and> trigger 0 ''m'' [1] (snd (finalizeTriggers 0 (PSObj 1) example_world))
       = (Inl (Error ''Already finalized.''), snd (finalizeTriggers 0 (PSObj 1) example_world))"
proof -
  let ?w = "snd (finalizeTriggers 0 (PSObj 1) example_world)"
  have 1: "finalized (comps ?w 0)"
    using sealed_handle_raises[of 0 "PSObj 1" example_world] by blast
  with sealed_handle_raises[of 0 "PSObj 1" ?w "''m''" 7 "[1]"] show ?thesis
    by blast
qed



text \<open>
  C1. When the target is a handle that is not sealed, \<open>px_finalize x h\<close> returns without
  error. It calls the target's \<^verbatim>\<open>sub\<close> surface once for every buffered (name, callback)
  pair, and the list of these pairs has no repetition and holds exactly the buffered
  callbacks, so every buffered callback ends up subscribed on the target under its name.
  The placeholder's promise and subscription maps are empty afterwards. A trigger of a name
  on the target after that calls every callback that was buffered under the name with the
  arguments of the trigger (exactly once when the target's own subscription map was well
  formed). No operation of a placeholder (subscribe, unsubscribe, promise request,
  finalize) calls a callback: each leaves the trace of events as it was.
\<close>

theorem placeholder_finalize_forwards_subscriptions:
  assumes "\<not> finalized (comps w (handle_cid h))"
      and "wf_trigmap (px_subscriptions (proxies w x))"
  shows "let buf = px_subscriptions (proxies w x);
             c = handle_cid h;
             w' = snd (px_finalize x h w);
             w'' = snd (trigger c k a w')
         in fst (px_finalize x h w) = Inr ()
          \<and> w' = upd_proxy x (\<lambda>p. p\<lparr>px_promises := [], px_subscriptions := []\<rparr>)
                   (sub_all h (pairs buf) (relay_all h (pairs (px_promises (proxies w x))) w))
          \<and> distinct (pairs buf)
          \<and> (\<forall>n f. (n, f) \<in> set (pairs buf) \<longleftrightarrow> f \<in> set (lookup_set buf n))
          \<and> (\<forall>n f. f \<in> set (lookup_set buf n) \<longrightarrow> f \<in> set (lookup_set (subscriptions (comps w' c)) n))
          \<and> px_promises (proxies w' x) = [] \<and> px_subscriptions (proxies w' x) = []
          \<and> events w' = events w
          \<and> events (snd (px_sub x k f w)) = events w
          \<and> events (snd (px_unsub x k f w)) = events w
          \<and> events (snd (px_async x k w)) = events w
          \<and> fst (trigger c k a w') = Inr ()
          \<and> (\<forall>f \<in> set (lookup_set buf k). Called f a \<in> set (new_events w' w''))
          \<and> (wf_trigmap (subscriptions (comps w c)) \<longrightarrow>
               (\<forall>f \<in> set (lookup_set buf k). count_list (new_events w' w'') (Called f a) = 1))"
proof -
  let ?buf = "px_subscriptions (proxies w x)"
  let ?c = "handle_cid h"
  let ?w' = "after_px_finalize x h w"
  let ?w'' = "after_trigger ?c k a ?w'"
  have fin: "px_finalize x h w = (Inr (), ?w')"
    using assms(1) by (rule px_finalize_open)
  have op: "\<not> finalized (comps ?w' ?c)"
    using assms(1) by (simp add: after_px_finalize_static)
  have tr: "trigger ?c k a ?w' = (Inr (), ?w'')"
    using op by (rule trigger_open)
  have dk: "distinct (map fst ?buf)"
    using assms(2) by (simp add: wf_trigmap_def)
  have 1: "?w' = upd_proxy x (\<lambda>p. p\<lparr>px_promises := [], px_subscriptions := []\<rparr>)
                   (sub_all h (pairs ?buf) (relay_all h (pairs (px_promises (proxies w x))) w))"
    by (simp add: after_px_finalize_def)
  have 2: "distinct (pairs ?buf)"
    using assms(2) by (rule distinct_pairs)
  have 3: "\<forall>n f. (n, f) \<in> set (pairs ?buf) \<longleftrightarrow> f \<in> set (lookup_set ?buf n)"
    using pairs_lookup[OF dk] by blast
  have 4: "\<forall>n f. f \<in> set (lookup_set ?buf n) \<longrightarrow> f \<in> set (lookup_set (subscriptions (comps ?w' ?c)) n)"
    using after_px_finalize_subs[OF assms(1), of x] 3 by blast
  have 5: "px_promises (proxies ?w' x) = [] \<and> px_subscriptions (proxies ?w' x) = []"
    by (simp add: after_px_finalize_static)
  have 6: "events ?w' = events w"
    by (simp add: after_px_finalize_static)
  have 7: "events (snd (px_sub x k f w)) = events w \<and> events (snd (px_unsub x k f w)) = events w
           \<and> events (snd (px_async x k w)) = events w"
    by (simp add: px_sub_def px_unsub_def px_async_def Let_def case_prod_beta)
  have 8: "\<forall>f \<in> set (lookup_set ?buf k). Called f a \<in> set (new_events ?w' ?w'')"
    using 4 Called_in_new_events by blast
  have 9: "wf_trigmap (subscriptions (comps w ?c)) \<longrightarrow>
             (\<forall>f \<in> set (lookup_set ?buf k). count_list (new_events ?w' ?w'') (Called f a) = 1)"
  proof (intro impI ballI)
    fix g
    assume wf: "wf_trigmap (subscriptions (comps w ?c))" and g: "g \<in> set (lookup_set ?buf k)"
    have "distinct (lookup_set (subscriptions (comps ?w' ?c)) k)"
      using after_px_finalize_wf[OF wf] by (rule wf_trigmap_lookup)
    moreover have "g \<in> set (lookup_set (subscriptions (comps ?w' ?c)) k)"
      using 4 g by blast
    ultimately show "count_list (new_events ?w' ?w'') (Called g a) = 1"
      by (simp add: after_trigger_count count_list_distinct_mem)
  qed
  show ?thesis
    unfolding Let_def fin tr fst_conv snd_conv
    using 1 2 3 4 5 6 7 8 9 by blast
qed

theorem placeholder_finalize_forwards_subscriptions_witness:
  "\<not> finalized (comps example_placeholder (handle_cid (PSObj 0)))
   \<and> wf_trigmap (px_subscriptions (proxies example_placeholder 0))
   \<and> wf_trigmap (subscriptions (comps example_placeholder 0))
   \<and> 7 \<in> set (lookup_set (px_subscriptions (proxies example_placeholder 0)) ''m'')
   \<and> fst (px_finalize 0 (PSObj 0) example_placeholder) = Inr ()
   \<and> px_subscriptions (proxies (snd (px_finalize 0 (PSObj 0) example_placeholder)) 0) = []
   \<and> count_list (new_events (snd (px_finalize 0 (PSObj 0) example_placeholder))
         (snd (trigger 0 ''m'' [1, 2] (snd (px_finalize 0 (PSObj 0) example_placeholder)))))
         (Called 7 [1, 2]) = 1"
proof -
  have 1: "\<not> finalized (comps example_placeholder (handle_cid (PSObj 0)))"
    by (simp add: example_placeholder_comps new_component_def)
  have 2: "wf_trigmap (px_subscriptions (proxies example_placeholder 0))"
    by (simp add: example_placeholder_proxy wf_trigmap_def)
  have 3: "wf_trigmap (subscriptions (comps example_placeholder 0))"
    by (simp add: example_placeholder_comps new_component_def)
  have 4: "7 \<in> set (lookup_set (px_subscriptions (proxies example_placeholder 0)) ''m'')"
    by (simp add: example_placeholder_proxy lookup_set_def)
  note th = placeholder_finalize_forwards_subscriptions[OF 1 2, of "''m''" "[1, 2]" 7,
      unfolded Let_def handle_cid.simps]
  from th 3 4 have "count_list (new_events (snd (px_finalize 0 (PSObj 0) example_placeholder))
         (snd (trigger 0 ''m'' [1, 2] (snd (px_finalize 0 (PSObj 0) example_placeholder)))))
         (Called 7 [1, 2]) = 1"
    by blast
  with th 1 2 3 4 show ?thesis by blast
qed







text \<open>
  C2, on the code. A third registration under one name in a \<^verbatim>\<open>ps\<close> proxy raises
  \<^verbatim>\<open>Error("Already finalized.")\<close>, because the second one sealed the owner of the proxy;
  a second registration of a \<^verbatim>\<open>pubsubObject\<close> under one name in a global registry
  raises a TypeError, because the object has no method \<^verbatim>\<open>finalizeTriggers\<close>. In both
  cases the slot keeps the handle it held, and a later read returns that one.
\<close>

theorem name_reuse_raises:
  "fst (ps_set 0 ''a'' (PSObj 2) example_parent) = Inr ()
   \<and> fst (ps_set 0 ''a'' (PSObj 3) (snd (ps_set 0 ''a'' (PSObj 2) example_parent)))
       = Inl (Error ''Already finalized.'')
   \<and> fst (ps_get 0 ''a'' (snd (ps_set 0 ''a'' (PSObj 3) (snd (ps_set 0 ''a'' (PSObj 2) example_parent)))))
       = Inr (Real (PSObj 2))
   \<and> fst (global_set 0 ''a'' (PSObj 1) init_world) = Inr ()
   \<and> fst (global_set 0 ''a'' (PSObj 2) (snd (global_set 0 ''a'' (PSObj 1) init_world)))
       = Inl (TypeError ''target[property].finalizeTriggers is not a function'')
   \<and> fst (global_get 0 ''a'' (snd (global_set 0 ''a'' (PSObj 2) (snd (global_set 0 ''a'' (PSObj 1) init_world)))))
       = Inr (Real (PSObj 1))"
proof -
  let ?w2 = "snd (ps_set 0 ''a'' (PSObj 2) example_parent)"
  have ns: "\<not> shadowed (ps (comps example_parent 0))"
    by (simp add: example_parent_comps shadowed_def)
  have slot: "own (ps (comps example_parent 0)) ''a'' = Some (Real (PSObj 1))"
    by (simp add: example_parent_comps own_def)
  have f: "finalizeTriggers 0 (PSObj 2) example_parent
      = (Inr (), after_finalizeTriggers 0 (PSObj 2) example_parent)"
    by (rule finalizeTriggers_open) (simp_all add: example_parent_comps new_component_def)
  have w2: "?w2 = upd_comp 0 (\<lambda>t. t\<lparr>ps := (ps t)(''a'' \<mapsto> Real (PSObj 2))\<rparr>)
      (after_finalizeTriggers 0 (PSObj 2) example_parent)"
    by (simp add: ps_set_real[OF ns slot] f)
  have 1: "fst (ps_set 0 ''a'' (PSObj 2) example_parent) = Inr ()"
    by (simp add: ps_set_real[OF ns slot] f)
  have ns2: "\<not> shadowed (ps (comps ?w2 0))"
    using ns slot by (rule ps_set_not_shadowed)
  have slot2: "own (ps (comps ?w2 0)) ''a'' = Some (Real (PSObj 2))"
    by (simp add: w2 own_def)
  have sealed: "finalized (comps ?w2 0)"
    using ns slot by (rule ps_set_real_seals)
  have 2: "ps_set 0 ''a'' (PSObj 3) ?w2 = (Inl AlreadyFinalized, ?w2)"
    using ns2 slot2 sealed by (rule ps_set_real_sealed)
  have 3: "fst (ps_get 0 ''a'' ?w2) = Inr (Real (PSObj 2))"
    using ns2 by (simp add: ps_get_def slot2 Let_def)
  let ?g1 = "snd (global_set 0 ''a'' (PSObj 1) init_world)"
  have g1: "global_set 0 ''a'' (PSObj 1) init_world
      = (Inr (), init_world\<lparr>globals := (globals init_world)(0 := [''a'' \<mapsto> Real (PSObj 1)])\<rparr>)"
    by (simp add: global_set_def init_world_def shadowed_def own_def Let_def)
  have g2: "global_set 0 ''a'' (PSObj 2) ?g1 = (Inl not_a_function, ?g1)"
    unfolding g1 snd_conv by (simp add: global_set_def shadowed_def own_def Let_def)
  have g3: "fst (global_get 0 ''a'' ?g1) = Inr (Real (PSObj 1))"
    unfolding g1 snd_conv by (simp add: global_get_def shadowed_def own_def Let_def)
  have 4: "fst (global_set 0 ''a'' (PSObj 1) init_world) = Inr ()"
    unfolding g1 by simp
  have 5: "fst (global_set 0 ''a'' (PSObj 2) ?g1)
      = Inl (TypeError ''target[property].finalizeTriggers is not a function'')"
    unfolding g2 by (simp add: not_a_function_def)
  have 6: "fst (global_get 0 ''a'' (snd (global_set 0 ''a'' (PSObj 2) ?g1))) = Inr (Real (PSObj 1))"
    unfolding g2 snd_conv by (rule g3)
  have 7: "fst (ps_set 0 ''a'' (PSObj 3) ?w2) = Inl (Error ''Already finalized.'')"
    unfolding 2 by (simp add: AlreadyFinalized_def)
  have 8: "fst (ps_get 0 ''a'' (snd (ps_set 0 ''a'' (PSObj 3) ?w2))) = Inr (Real (PSObj 2))"
    unfolding 2 snd_conv by (rule 3)
  show ?thesis
    using 1 7 8 4 5 6 by blast
qed

text \<open>
  C3. A promise requested from a component that is not sealed is pending when it is
  created, also when the name was triggered before; the next trigger of the name fulfils
  it with the arguments of that trigger, records exactly one resolution of it, and a
  further trigger neither changes its value nor resolves it again; no sequence \<open>os\<close> of
  later operations of the library changes its value. After \<open>n\<close> requests for
  one name, the \<open>n\<close> promises are distinct and pending; one trigger of the name fulfils
  every one of them with its arguments, each with a resolution of its own, and leaves the
  name without waiters.
\<close>

theorem waiter_resolves_with_next_fire:
  assumes "\<not> finalized (comps w0 c)"
  shows "let w = snd (trigger c k a0 w0);
             q = fst (triggerPromise c k w); w1 = snd (triggerPromise c k w);
             w2 = snd (trigger c k a w1); w3 = snd (trigger c k b w2);
             qs = fst (wait_n n c k w0); v1 = snd (wait_n n c k w0);
             v2 = snd (trigger c k a v1)
         in pstates w1 q = Pending
          \<and> q \<in> set (lookup_set (promises (comps w1 c)) k)
          \<and> fst (trigger c k a w1) = Inr ()
          \<and> pstates w2 q = Fulfilled a
          \<and> count_list (new_events w1 w2) (Resolved q a) = 1
          \<and> fst (trigger c k b w2) = Inr ()
          \<and> pstates w3 q = Fulfilled a
          \<and> (\<forall>b'. Resolved q b' \<notin> set (new_events w2 w3))
          \<and> pstates (run os w2) q = Fulfilled a
          \<and> length qs = n \<and> distinct qs
          \<and> fst (trigger c k a v1) = Inr ()
          \<and> (\<forall>p \<in> set qs. pstates v1 p = Pending \<and> pstates v2 p = Fulfilled a
                \<and> count_list (new_events v1 v2) (Resolved p a) = 1)
          \<and> lookup_set (promises (comps v2 c)) k = []
          \<and> map_of (promises (comps v2 c)) k = None"
proof -
  let ?w = "after_trigger c k a0 w0"
  let ?q = "next_pid ?w"
  let ?w1 = "snd (triggerPromise c k ?w)"
  let ?w2 = "after_trigger c k a ?w1"
  let ?w3 = "after_trigger c k b ?w2"
  let ?qs = "[next_pid w0 ..< next_pid w0 + n]"
  let ?v1 = "snd (wait_n n c k w0)"
  let ?v2 = "after_trigger c k a ?v1"
  have t0: "trigger c k a0 w0 = (Inr (), ?w)" using assms by (rule trigger_open)
  have o: "\<not> finalized (comps ?w c)" using assms by (simp add: after_trigger_open)
  have q: "fst (triggerPromise c k ?w) = ?q" using o by (simp add: triggerPromise_open)
  have w1: "?w1 = upd_comp c (\<lambda>t. t\<lparr>promises := AList.update k (set_add (lookup_set (promises t) k) ?q) (promises t)\<rparr>)
        (?w\<lparr>next_pid := Suc ?q, pstates := (pstates ?w)(?q := Pending)\<rparr>)"
    using o by (simp add: triggerPromise_open)
  have o1: "\<not> finalized (comps ?w1 c)" using o by (simp add: w1)
  have t1: "trigger c k a ?w1 = (Inr (), ?w2)" using o1 by (rule trigger_open)
  have o2: "\<not> finalized (comps ?w2 c)" using o1 by (simp add: after_trigger_open)
  have t2: "trigger c k b ?w2 = (Inr (), ?w3)" using o2 by (rule trigger_open)
  have 1: "pstates ?w1 ?q = Pending" by (simp add: w1)
  have 2: "?q \<in> set (lookup_set (promises (comps ?w1 c)) k)"
    by (simp add: w1 lookup_set_update)
  have 3: "pstates ?w2 ?q = Fulfilled a"
    using 1 2 by (simp add: after_trigger_pstates)
  have 4: "count_list (new_events ?w1 ?w2) (Resolved ?q a) = 1"
    using 1 2 by (simp add: after_trigger_count_Resolved)
  have 5: "pstates ?w3 ?q = Fulfilled a"
    using 3 by (simp add: after_trigger_pstates)
  have "new_events ?w2 ?w3 = map (\<lambda>f. Called f b) (lookup_set (subscriptions (comps ?w2 c)) k)"
    by (rule after_trigger_no_waiters) (rule after_trigger_waiters)
  then have 6: "\<forall>b'. Resolved ?q b' \<notin> set (new_events ?w2 ?w3)"
    by auto
  have "?q < next_pid ?w1" by (simp add: w1)
  moreover have "next_pid ?w1 \<le> next_pid ?w2"
    using mono_step_trigger[of ?w1 c k a] unfolding t1 by (simp add: mono_step_def)
  ultimately have 10: "pstates (run os ?w2) ?q = Fulfilled a"
    using settled_run[of ?w2 ?q os] 3 by simp
  have qs: "fst (wait_n n c k w0) = ?qs" by (rule wait_n_fst)
  note v = wait_n_snd[OF assms, of n k]
  have ov: "\<not> finalized (comps ?v1 c)" using v by blast
  have tv: "trigger c k a ?v1 = (Inr (), ?v2)" using ov by (rule trigger_open)
  have 7: "\<forall>p \<in> set ?qs. pstates ?v1 p = Pending \<and> pstates ?v2 p = Fulfilled a
                \<and> count_list (new_events ?v1 ?v2) (Resolved p a) = 1"
  proof
    fix p assume "p \<in> set ?qs"
    then have r: "next_pid w0 \<le> p \<and> p < next_pid w0 + n" by simp
    then have a: "pstates ?v1 p = Pending" using v by simp
    have b: "p \<in> set (lookup_set (promises (comps ?v1 c)) k)" using v r by simp
    show "pstates ?v1 p = Pending \<and> pstates ?v2 p = Fulfilled a
                \<and> count_list (new_events ?v1 ?v2) (Resolved p a) = 1"
      using a b by (simp add: after_trigger_pstates after_trigger_count_Resolved)
  qed
  have 8: "lookup_set (promises (comps ?v2 c)) k = []" by (rule after_trigger_waiters)
  have 9: "map_of (promises (comps ?v2 c)) k = None"
    by (simp add: after_trigger_comp delete_conv')
  show ?thesis
    unfolding Let_def t0 snd_conv q t1 t2 fst_conv qs tv
    using 1 2 3 4 5 6 7 8 9 10 by simp
qed

theorem waiter_resolves_with_next_fire_witness:
  "\<not> finalized (comps init_world 0)
   \<and> pstates (snd (trigger 0 ''m'' [9]
         (snd (triggerPromise 0 ''m'' (snd (trigger 0 ''m'' [5] init_world))))))
       (fst (triggerPromise 0 ''m'' (snd (trigger 0 ''m'' [5] init_world)))) = Fulfilled [9]
   \<and> pstates (snd (trigger 0 ''m'' [3] (snd (trigger 0 ''m'' [9]
         (snd (triggerPromise 0 ''m'' (snd (trigger 0 ''m'' [5] init_world))))))))
       (fst (triggerPromise 0 ''m'' (snd (trigger 0 ''m'' [5] init_world)))) = Fulfilled [9]
   \<and> length (fst (wait_n 2 0 ''m'' init_world)) = 2
   \<and> lookup_set (promises (comps (snd (trigger 0 ''m'' [9] (snd (wait_n 2 0 ''m'' init_world)))) 0)) ''m'' = []"
proof -
  have 1: "\<not> finalized (comps init_world 0)"
    by (simp add: init_world_def new_component_def)
  note th = waiter_resolves_with_next_fire[OF 1, of "''m''" "[5]" "[9]" "[3]" 2, unfolded Let_def]
  from th 1 show ?thesis by blast
qed

text \<open>
  C8, on the code. The linkage \<^verbatim>\<open>["name"]\<close>, a name with no registry after it, has
  the declared type of the \<^verbatim>\<open>pubsub\<close> prop; the constructor puts the missing second
  element in front of the list of global registries and then assigns a property of
  \<^verbatim>\<open>undefined\<close>, which raises a TypeError. The linkage \<^verbatim>\<open>["a", g]\<close> with a global
  registry \<open>g\<close> constructs a first component without error and raises a TypeError for
  the second component constructed with it.
\<close>

theorem wellformed_linkage_raises:
  "fst (constructor (Some [LStr ''name'']) init_world)
     = Inl (TypeError ''Cannot set properties of undefined (setting 'name')'')
   \<and> fst (constructor (Some [LStr ''a'', LGlobal 0]) init_world) = Inr 0
   \<and> fst (constructor (Some [LStr ''a'', LGlobal 0])
          (snd (constructor (Some [LStr ''a'', LGlobal 0]) init_world)))
     = Inl (TypeError ''target[property].finalizeTriggers is not a function'')"
proof -
  have 1: "fst (constructor (Some [LStr ''name'']) init_world)
     = Inl (TypeError ''Cannot set properties of undefined (setting 'name')'')"
    by (simp add: constructor_def link_def Let_def cannot_set_property_def quoted_def)
  let ?w1 = "init_world\<lparr>next_cid := Suc 0, comps := (comps init_world)(0 := new_component),
      globals := (globals init_world)(0 := [''a'' \<mapsto> Real (PSObj 0)])\<rparr>"
  have c1: "constructor (Some [LStr ''a'', LGlobal 0]) init_world = (Inr 0, ?w1)"
    by (simp add: constructor_def link_def Let_def global_set_def init_world_def shadowed_def own_def)
  have 2: "fst (constructor (Some [LStr ''a'', LGlobal 0]) init_world) = Inr 0"
    unfolding c1 by simp
  have 3: "fst (constructor (Some [LStr ''a'', LGlobal 0])
          (snd (constructor (Some [LStr ''a'', LGlobal 0]) init_world)))
     = Inl (TypeError ''target[property].finalizeTriggers is not a function'')"
    unfolding c1 snd_conv
    by (simp add: constructor_def link_def Let_def global_set_def not_a_function_def shadowed_def own_def)
  from 1 2 3 show ?thesis by blast
qed

text \<open>
  The true part of C8: a linkage whose first two elements are both strings, or of which
  neither is a string, makes the constructor raise the TypeError of the source; the world
  it leaves differs from the one before only by the new component, so no registry was
  written.
\<close>

theorem malformed_linkage_raises:
  "(is_string (elem p 0) \<and> is_string (elem p 1) \<longrightarrow>
      constructor (Some p) w =
        (Inl (TypeError ''ID cannot be a string.''),
         w\<lparr>next_cid := Suc (next_cid w), comps := (comps w)(next_cid w := new_component)\<rparr>))
   \<and> (\<not> is_string (elem p 0) \<and> \<not> is_string (elem p 1) \<longrightarrow>
      constructor (Some p) w =
        (Inl (TypeError ''ID must be a string.''),
         w\<lparr>next_cid := Suc (next_cid w), comps := (comps w)(next_cid w := new_component)\<rparr>))"
  by (simp add: constructor_def Let_def link_malformed)

theorem malformed_linkage_raises_witness:
  "is_string (elem [LStr ''a'', LStr ''b''] 0) \<and> is_string (elem [LStr ''a'', LStr ''b''] 1)
   \<and> fst (constructor (Some [LStr ''a'', LStr ''b'']) init_world)
       = Inl (TypeError ''ID cannot be a string.'')
   \<and> globals (snd (constructor (Some [LStr ''a'', LStr ''b'']) init_world)) = globals init_world
   \<and> \<not> is_string (elem [LGlobal 0, LGlobal 1] 0) \<and> \<not> is_string (elem [LGlobal 0, LGlobal 1] 1)
   \<and> fst (constructor (Some [LGlobal 0, LGlobal 1]) init_world)
       = Inl (TypeError ''ID must be a string.'')
   \<and> globals (snd (constructor (Some [LGlobal 0, LGlobal 1]) init_world)) = globals init_world"
proof -
  have a: "is_string (elem [LStr ''a'', LStr ''b''] 0) \<and> is_string (elem [LStr ''a'', LStr ''b''] 1)"
    by simp
  have b: "\<not> is_string (elem [LGlobal 0, LGlobal 1] 0) \<and> \<not> is_string (elem [LGlobal 0, LGlobal 1] 1)"
    by simp
  from malformed_linkage_raises[of "[LStr ''a'', LStr ''b'']" init_world] a
  have 1: "constructor (Some [LStr ''a'', LStr ''b'']) init_world =
        (Inl (TypeError ''ID cannot be a string.''),
         init_world\<lparr>next_cid := Suc (next_cid init_world),
           comps := (comps init_world)(next_cid init_world := new_component)\<rparr>)"
    by blast
  from malformed_linkage_raises[of "[LGlobal 0, LGlobal 1]" init_world] b
  have 2: "constructor (Some [LGlobal 0, LGlobal 1]) init_world =
        (Inl (TypeError ''ID must be a string.''),
         init_world\<lparr>next_cid := Suc (next_cid init_world),
           comps := (comps init_world)(next_cid init_world := new_component)\<rparr>)"
    by blast
  show ?thesis
    unfolding 1 2 using a b by simp
qed




end
